theory Spec2Isabelle
  imports Main "HOL-Library.AList" "HOL-Library.Sublist"
begin

section \<open>The iLert Icinga plugin: a disk-backed event queue and its flush protocol\<close>

text \<open>
  This theory embeds \<^verbatim>\<open>ilert-icinga.py\<close>: the XML encoder \<^verbatim>\<open>create_xml\<close>, the
  atomic writer \<^verbatim>\<open>persist_event\<close>, the sender \<^verbatim>\<open>flush\<close> and its wrapper
  \<^verbatim>\<open>lock_and_flush\<close>. Python strings are HOL strings. The event directory is an
  association list from entry names to files, in the order \<^verbatim>\<open>os.listdir\<close> reports them.
  Every exception the source can meet is a value: a function that can raise returns a sum
  whose left side is the exception, and a \<^verbatim>\<open>try\<close> block is a case distinction on it.
\<close>

subsection \<open>String operations of the Python library\<close>

text \<open>\<^verbatim>\<open>x.endswith(s)\<close>.\<close>

definition endswith :: "string \<Rightarrow> string \<Rightarrow> bool" where
  "endswith x s \<longleftrightarrow> length s \<le> length x \<and> drop (length x - length s) x = s"

text \<open>\<^verbatim>\<open>s.replace(c, r)\<close> for a pattern \<open>c\<close> of one character, the only use the encoder makes of it.\<close>

definition replace :: "char \<Rightarrow> string \<Rightarrow> string \<Rightarrow> string" where
  "replace c r s = concat (map (\<lambda>x. if x = c then r else [x]) s)"

text \<open>\<^verbatim>\<open>os.path.join(a, b)\<close> of \<^verbatim>\<open>posixpath\<close>, for two components.\<close>

definition path_join :: "string \<Rightarrow> string \<Rightarrow> string" where
  "path_join a b =
     (if take 1 b = ''/'' then b
      else if a = [] \<or> endswith a ''/'' then a @ b
      else a @ ''/'' @ b)"

text \<open>\<^verbatim>\<open>"%s" % n\<close> for an integer: its decimal digits.\<close>

fun digits :: "nat \<Rightarrow> string" where
  "digits n = (if n < 10 then [char_of (48 + n)] else digits (n div 10) @ [char_of (48 + n mod 10)])"

declare digits.simps [simp del]

definition str_int :: "int \<Rightarrow> string" where
  "str_int i = (if i < 0 then ''-'' @ digits (nat (- i)) else digits (nat i))"

subsection \<open>The XML encoder\<close>

text \<open>
  \<^verbatim>\<open>xml.sax.saxutils.escape\<close>: the ampersand is replaced first, then the two angle
  brackets, each by its entity.
\<close>

definition escape :: "string \<Rightarrow> string" where
  "escape data = replace (CHR ''<'') ''&lt;'' (replace (CHR ''>'') ''&gt;'' (replace (CHR ''&'') ''&amp;'' data))"

text \<open>
  \<^verbatim>\<open>xml.sax.saxutils.quoteattr\<close> calls \<^verbatim>\<open>escape(data, entities)\<close> with newline,
  carriage return and tab as further entities, replaced in this order after the three
  replacements of \<^verbatim>\<open>escape\<close>. Then it chooses the quote character. \<open>CHR 0x22\<close> is the
  double quote and \<open>CHR 0x27\<close> the single quote.
\<close>

definition escape_attr :: "string \<Rightarrow> string" where
  "escape_attr data =
     replace (CHR 0x09) ''&#9;'' (replace (CHR 0x0D) ''&#13;'' (replace (CHR 0x0A) ''&#10;'' (escape data)))"

definition quoteattr :: "string \<Rightarrow> string" where
  "quoteattr data =
     (let d = escape_attr data
      in if CHR 0x22 \<in> set d then
           (if CHR 0x27 \<in> set d then [CHR 0x22] @ replace (CHR 0x22) ''&quot;'' d @ [CHR 0x22]
            else [CHR 0x27] @ d @ [CHR 0x27])
         else [CHR 0x22] @ d @ [CHR 0x22])"

text \<open>The XML declaration that opens every document.\<close>

definition xml_header :: string where
  "xml_header = ''<?xml version='' @ [CHR 0x22] @ ''1.0'' @ [CHR 0x22] @ '' encoding='' @ [CHR 0x22]
     @ ''UTF-8'' @ [CHR 0x22] @ '' standalone='' @ [CHR 0x22] @ ''yes'' @ [CHR 0x22] @ ''?>''"

text \<open>
  A payload is a Python dictionary from strings to strings; the encoder iterates over it in
  insertion order, so it is a list of pairs here.
\<close>

type_synonym payload = "(string \<times> string) list"

definition xml_entry :: "string \<times> string \<Rightarrow> string" where
  "xml_entry e = ''<entry key='' @ quoteattr (fst e) @ ''>'' @ escape (snd e) @ ''</entry>''"

text \<open>
  \<^verbatim>\<open>create_xml\<close>: the API key goes between its tags as it is; every payload key goes
  through \<^verbatim>\<open>quoteattr\<close> and every payload value through \<^verbatim>\<open>escape\<close>. The loop
  appends one entry after the other to the document.
\<close>

definition create_xml :: "string \<Rightarrow> payload \<Rightarrow> string" where
  "create_xml apikey payload =
     foldl (\<lambda>xml_doc entry. xml_doc @ xml_entry entry)
       (xml_header @ ''<event><apiKey>'' @ apikey @ ''</apiKey><payload>'') payload
     @ ''</payload></event>''"

subsection \<open>A reader for the documents\<close>

text \<open>
  The plugin only writes documents; the server reads them. To state what reading one
  gives back, here is a reader for documents of the shape \<^verbatim>\<open>create_xml\<close> writes. It
  follows XML's rules for this shape: character data ends at the next \<^verbatim>\<open><\<close>; an
  attribute value stands between two quotes of the same kind; in both, a reference such
  as \<^verbatim>\<open>&amp;\<close> stands for its character, and an ampersand that opens no reference, or
  a \<^verbatim>\<open><\<close>, is not well-formed. The references are the five predefined entities and
  the three character references that \<^verbatim>\<open>quoteattr\<close> writes. The reader is more
  lenient than XML elsewhere (it accepts every character and leaves line ends alone).
\<close>

definition strip_prefix :: "string \<Rightarrow> string \<Rightarrow> string option" where
  "strip_prefix p s = (if take (length p) s = p then Some (drop (length p) s) else None)"

definition references :: "(string \<times> char) list" where
  "references =
     [(''&amp;'', CHR ''&''), (''&lt;'', CHR ''<''), (''&gt;'', CHR ''>''),
      (''&quot;'', CHR 0x22), (''&apos;'', CHR 0x27),
      (''&#10;'', CHR 0x0A), (''&#13;'', CHR 0x0D), (''&#9;'', CHR 0x09)]"

fun reference_at :: "(string \<times> char) list \<Rightarrow> string \<Rightarrow> (char \<times> nat) option" where
  "reference_at [] s = None"
| "reference_at ((r, c) # rs) s =
     (if take (length r) s = r then Some (c, length r) else reference_at rs s)"

fun unescape :: "string \<Rightarrow> string option" where
  "unescape [] = Some []"
| "unescape (c # cs) =
     (if c = CHR ''&'' then
        (case reference_at references (c # cs) of
           None \<Rightarrow> None
         | Some (ch, n) \<Rightarrow> map_option ((#) ch) (unescape (drop (n - 1) cs)))
      else if c = CHR ''<'' then None
      else map_option ((#) c) (unescape cs))"

definition read_chardata :: "string \<Rightarrow> (string \<times> string) option" where
  "read_chardata s =
     (case unescape (takeWhile (\<lambda>c. c \<noteq> CHR ''<'') s) of
        None \<Rightarrow> None
      | Some t \<Rightarrow> Some (t, dropWhile (\<lambda>c. c \<noteq> CHR ''<'') s))"

definition read_attribute :: "string \<Rightarrow> (string \<times> string) option" where
  "read_attribute s =
     (case s of
        [] \<Rightarrow> None
      | q # rest \<Rightarrow>
          if q = CHR 0x22 \<or> q = CHR 0x27 then
            (case dropWhile (\<lambda>c. c \<noteq> q) rest of
               [] \<Rightarrow> None
             | q' # after \<Rightarrow>
                 (case unescape (takeWhile (\<lambda>c. c \<noteq> q) rest) of
                    None \<Rightarrow> None
                  | Some k \<Rightarrow> Some (k, after)))
          else None)"

text \<open>
  The entries, one after the other, until the text no longer opens an entry. Every entry
  uses up characters, so a bound of one more than the length of the text is never reached.
\<close>

fun read_entries :: "nat \<Rightarrow> string \<Rightarrow> (payload \<times> string) option" where
  "read_entries 0 s = None"
| "read_entries (Suc n) s =
     (case strip_prefix ''<entry key='' s of
        None \<Rightarrow> Some ([], s)
      | Some s1 \<Rightarrow>
          (case read_attribute s1 of
             None \<Rightarrow> None
           | Some (k, s2) \<Rightarrow>
               (case strip_prefix ''>'' s2 of
                  None \<Rightarrow> None
                | Some s3 \<Rightarrow>
                    (case read_chardata s3 of
                       None \<Rightarrow> None
                     | Some (v, s4) \<Rightarrow>
                         (case strip_prefix ''</entry>'' s4 of
                            None \<Rightarrow> None
                          | Some s5 \<Rightarrow>
                              (case read_entries n s5 of
                                 None \<Rightarrow> None
                               | Some (p, s6) \<Rightarrow> Some ((k, v) # p, s6)))))))"

definition decode_xml :: "string \<Rightarrow> (string \<times> payload) option" where
  "decode_xml doc =
     (case strip_prefix (xml_header @ ''<event><apiKey>'') doc of
        None \<Rightarrow> None
      | Some s1 \<Rightarrow>
          (case read_chardata s1 of
             None \<Rightarrow> None
           | Some (apikey, s2) \<Rightarrow>
               (case strip_prefix ''</apiKey><payload>'' s2 of
                  None \<Rightarrow> None
                | Some s3 \<Rightarrow>
                    (case read_entries (Suc (length s3)) s3 of
                       None \<Rightarrow> None
                     | Some (payload, s4) \<Rightarrow>
                         if s4 = ''</payload></event>'' then Some (apikey, payload) else None))))"

subsection \<open>The event directory and the world around the plugin\<close>

text \<open>
  A file has a modification time and contents. The plugin opens event files as UTF-8
  text, so the contents are either the text that the bytes decode to, line ends as they
  stand in the file, or bytes that do not decode (\<open>Garbled\<close>).
  Every entry of the directory is taken to be a readable regular file.
\<close>

datatype contents = Text string | Garbled

record entry =
  mtime :: int
  body :: contents

type_synonym dir = "(string \<times> entry) list"

text \<open>
  Other processes share the directory. What they do to it while the plugin runs is a
  script: a list of slots, each a list of removals and writes. The plugin hands the
  directory to the next slot before each of its own file system calls that looks a path up.
\<close>

datatype ext = ExtRemove string | ExtPut string entry

fun apply_ext :: "ext \<Rightarrow> dir \<Rightarrow> dir" where
  "apply_ext (ExtRemove n) d = AList.delete n d"
| "apply_ext (ExtPut n f) d = AList.update n f d"

text \<open>
  What the plugin does to the outside is recorded in a trace: calls of \<^verbatim>\<open>log\<close> with
  their level, direct writes to \<^verbatim>\<open>sys.stderr\<close>, files it opens for reading, requests it
  hands to \<^verbatim>\<open>urlopen\<close> (event, URL, body) and directory entries it has deleted.
\<close>

datatype level = INFO | WARN | ERROR

datatype message =
    WritingEvent
  | PayloadDump payload
  | CreatedEventFile string
  | CouldNotWrite string
  | SendingEvent string
  | TooManyRequests
  | NotAccepted
  | HttpFailure int
  | SendFailed
  | UnexpectedError
  | SentAndRemoved string

datatype effect =
    Log level message
  | Stderr message
  | Open string
  | Post string string string
  | Unlink string

text \<open>
  The exceptions that leave a function of the plugin: \<^verbatim>\<open>OSError\<close> (Python 3's
  \<^verbatim>\<open>IOError\<close>; a timeout and a reset connection are subclasses of it),
  \<^verbatim>\<open>UnicodeDecodeError\<close>, and \<^verbatim>\<open>http.client.IncompleteRead\<close>, which reading a
  response body raises when the body is cut short.
\<close>

datatype exn = OSError | UnicodeDecodeError | IncompleteRead

record world =
  files :: dir
  racers :: "ext list list"
  trace :: "effect list"
  lock_open :: bool
  lock_held :: bool

definition yield :: "world \<Rightarrow> world" where
  "yield w =
     (case racers w of
        [] \<Rightarrow> w
      | slot # rest \<Rightarrow> w\<lparr>files := fold apply_ext slot (files w), racers := rest\<rparr>)"

text \<open>
  \<^verbatim>\<open>log(level, message)\<close> sends the message to syslog or to the standard streams; the
  trace keeps the level and the message.
\<close>

definition log :: "level \<Rightarrow> message \<Rightarrow> world \<Rightarrow> world" where
  "log lvl msg w = w\<lparr>trace := trace w @ [Log lvl msg]\<rparr>"

definition emit :: "effect \<Rightarrow> world \<Rightarrow> world" where
  "emit e w = w\<lparr>trace := trace w @ [e]\<rparr>"

text \<open>\<^verbatim>\<open>os.path.getmtime\<close> raises \<^verbatim>\<open>OSError\<close> for a path that does not exist.\<close>

definition getmtime :: "string \<Rightarrow> world \<Rightarrow> exn + int" where
  "getmtime n w = (case map_of (files w) n of None \<Rightarrow> Inl OSError | Some f \<Rightarrow> Inr (mtime f))"

text \<open>
  A file opened in text mode without a \<^verbatim>\<open>newline\<close> argument is read with universal
  newlines: a carriage return followed by a line feed, and a carriage return alone, both
  come out as one line feed.
\<close>

fun universal_newlines :: "string \<Rightarrow> string" where
  "universal_newlines [] = []"
| "universal_newlines [c] = (if c = CHR 0x0D then [CHR 0x0A] else [c])"
| "universal_newlines (c # d # cs) =
     (if c = CHR 0x0D \<and> d = CHR 0x0A then CHR 0x0A # universal_newlines cs
      else if c = CHR 0x0D then CHR 0x0A # universal_newlines (d # cs)
      else c # universal_newlines (d # cs))"

text \<open>
  \<^verbatim>\<open>open(event, 'r', encoding='utf-8')\<close> followed by \<^verbatim>\<open>f.read()\<close>: \<^verbatim>\<open>OSError\<close>
  (Python 3's \<^verbatim>\<open>IOError\<close>) for a missing file, \<^verbatim>\<open>UnicodeDecodeError\<close> for contents
  that are not UTF-8, and otherwise the decoded contents with universal newlines.
\<close>

definition read_text :: "string \<Rightarrow> world \<Rightarrow> exn + string" where
  "read_text n w =
     (case map_of (files w) n of
        None \<Rightarrow> Inl OSError
      | Some f \<Rightarrow>
          (case body f of
             Text s \<Rightarrow> Inr (universal_newlines s)
           | Garbled \<Rightarrow> Inl UnicodeDecodeError))"

text \<open>\<^verbatim>\<open>os.remove\<close> raises \<^verbatim>\<open>OSError\<close> for a path that does not exist.\<close>

definition os_remove :: "string \<Rightarrow> world \<Rightarrow> exn + world" where
  "os_remove n w =
     (case map_of (files w) n of
        None \<Rightarrow> Inl OSError
      | Some f \<Rightarrow> Inr (emit (Unlink n) (w\<lparr>files := AList.delete n (files w)\<rparr>)))"

text \<open>\<^verbatim>\<open>os.rename\<close> replaces the destination in one step.\<close>

definition os_rename :: "string \<Rightarrow> string \<Rightarrow> world \<Rightarrow> exn + world" where
  "os_rename src dst w =
     (case map_of (files w) src of
        None \<Rightarrow> Inl OSError
      | Some f \<Rightarrow> Inr (w\<lparr>files := AList.update dst f (AList.delete src (files w))\<rparr>))"

definition write_file :: "string \<Rightarrow> entry \<Rightarrow> world \<Rightarrow> world" where
  "write_file n f w = w\<lparr>files := AList.update n f (files w)\<rparr>"

subsection \<open>\<^verbatim>\<open>persist_event\<close>\<close>

text \<open>
  The identifier \<^verbatim>\<open>uuid.uuid4()\<close> and the clock are parameters. So is the I/O failure
  the call meets, if any: \<^verbatim>\<open>io.open\<close> raises; \<^verbatim>\<open>f.write\<close> or \<^verbatim>\<open>f.flush\<close> raises
  after \<open>k\<close> characters have reached the file; \<^verbatim>\<open>f.close\<close> raises; \<^verbatim>\<open>os.rename\<close>
  raises. Each one lands in the \<^verbatim>\<open>except Exception\<close> clause, which logs and calls
  \<^verbatim>\<open>exit(1)\<close>.
\<close>

datatype fault = NoFault | OpenFails | WriteFails nat | CloseFails | RenameFails

datatype status = Returned | Exited int

definition persist_event ::
    "string \<Rightarrow> string \<Rightarrow> payload \<Rightarrow> string \<Rightarrow> int \<Rightarrow> fault \<Rightarrow> world \<Rightarrow> status \<times> world" where
  "persist_event api_key directory payload uid now fault w =
     (let w0 = log INFO (PayloadDump payload) (log INFO WritingEvent w);
          xml_doc = create_xml api_key payload;
          filename = uid @ ''.ilert'';
          filename_tmp = uid @ ''.tmp'';
          file_path = directory @ ''/'' @ filename;
          failed = (\<lambda>w'. (Exited 1, log ERROR (CouldNotWrite file_path) w'))
      in if fault = OpenFails then failed w0
         else
           let w1 = write_file filename_tmp \<lparr>mtime = now, body = Text []\<rparr> w0 in
           (case fault of
              WriteFails k \<Rightarrow>
                failed (write_file filename_tmp \<lparr>mtime = now, body = Text (take k xml_doc)\<rparr> w1)
            | _ \<Rightarrow>
                let w2 = write_file filename_tmp \<lparr>mtime = now, body = Text xml_doc\<rparr> w1 in
                if fault = CloseFails \<or> fault = RenameFails then failed w2
                else (case os_rename filename_tmp filename w2 of
                        Inl e \<Rightarrow> failed w2
                      | Inr w3 \<Rightarrow> (Returned, log INFO (CreatedEventFile file_path) w3))))"

subsection \<open>\<^verbatim>\<open>flush\<close>\<close>

text \<open>
  What the \<^verbatim>\<open>try\<close> block around the request does. \<^verbatim>\<open>urllib.request.Request\<close> may
  raise before anything is sent (\<^verbatim>\<open>ValueError\<close> for a URL without a scheme); then
  \<^verbatim>\<open>urlopen\<close> is not called (\<open>NotRequested\<close>). Otherwise \<^verbatim>\<open>urlopen\<close> is called, and
  it returns (the default opener returns only for a final status of 2xx), or raises
  \<^verbatim>\<open>HTTPError\<close> with a status code, or \<^verbatim>\<open>URLError\<close>, or anything else. An
  \<^verbatim>\<open>HTTPError\<close> carries the open response: every branch of its handler calls
  \<^verbatim>\<open>e.read()\<close> on it, which returns the body (\<open>None\<close>) or raises (\<open>Some x\<close>:
  \<^verbatim>\<open>IncompleteRead\<close> for a body cut short, \<^verbatim>\<open>OSError\<close> for a timeout or a reset
  connection). Within one invocation every event is tried at most once, so the outcomes
  of an invocation are a function of the event.
\<close>

datatype outcome = NotRequested | Delivered | HTTPError int "exn option" | URLError | OtherError

record env =
  reply :: "string \<Rightarrow> outcome"
  open_lock_fails :: bool
  flock_fails :: bool
  clock :: int

text \<open>
  The first three lines of \<^verbatim>\<open>flush\<close>: the listing, the filter on the joined path, and
  the sort keys. \<^verbatim>\<open>sorted\<close> calls \<^verbatim>\<open>os.path.getmtime\<close> once for every element, in
  list order, before it sorts; the first call that raises ends \<^verbatim>\<open>flush\<close>.
\<close>

definition select_events :: "string \<Rightarrow> string list \<Rightarrow> string list" where
  "select_events directory names = filter (\<lambda>f. endswith (path_join directory f) ''.ilert'') names"

fun stat_all :: "string list \<Rightarrow> world \<Rightarrow> (exn + int list) \<times> world" where
  "stat_all [] w = (Inr [], w)"
| "stat_all (n # ns) w =
     (let w1 = yield w in
      case getmtime n w1 of
        Inl e \<Rightarrow> (Inl e, w1)
      | Inr t \<Rightarrow>
          (case stat_all ns w1 of
             (Inl e, w2) \<Rightarrow> (Inl e, w2)
           | (Inr ts, w2) \<Rightarrow> (Inr (t # ts), w2)))"

text \<open>
  The body of the loop, for one event. \<^verbatim>\<open>except IOError: continue\<close> catches
  \<open>OSError\<close> only. The \<^verbatim>\<open>except\<close> clauses around the request are tried in the
  source's order. What is raised inside a handler or in the \<^verbatim>\<open>else\<close> clause is caught
  by nothing: that is so for \<^verbatim>\<open>e.read()\<close>, which every branch of the
  \<^verbatim>\<open>HTTPError\<close> handler evaluates before it logs or deletes, and for \<^verbatim>\<open>os.remove\<close>.
  The trace records a \<open>Post\<close> when \<^verbatim>\<open>urlopen\<close> is called.
\<close>

definition handle_event ::
    "env \<Rightarrow> string \<Rightarrow> string \<Rightarrow> int \<Rightarrow> string \<Rightarrow> world \<Rightarrow> (exn + unit) \<times> world" where
  "handle_event env endpoint directory port event w =
     (let url = endpoint @ '':'' @ str_int port @ ''/api/v1/events/icinga'';
          w1 = emit (Open event) (yield w)
      in case read_text event w1 of
           Inl OSError \<Rightarrow> (Inr (), w1)
         | Inl e \<Rightarrow> (Inl e, w1)
         | Inr xml_doc \<Rightarrow>
             let w2 = log INFO (SendingEvent (path_join directory event)) w1;
                 w3 = emit (Post event url xml_doc) w2
             in (case reply env event of
                   NotRequested \<Rightarrow> (Inr (), log ERROR UnexpectedError w2)
                 | HTTPError code body_read \<Rightarrow>
                     if code = 429 then
                       (case body_read of
                          Some x \<Rightarrow> (Inl x, w3)
                        | None \<Rightarrow> (Inr (), log WARN TooManyRequests w3))
                     else if 400 \<le> code \<and> code \<le> 499 then
                       (case body_read of
                          Some x \<Rightarrow> (Inl x, w3)
                        | None \<Rightarrow>
                            (let w4 = log WARN NotAccepted w3 in
                             case os_remove event (yield w4) of
                               Inl e \<Rightarrow> (Inl e, yield w4)
                             | Inr w5 \<Rightarrow> (Inr (), w5)))
                     else
                       (case body_read of
                          Some x \<Rightarrow> (Inl x, w3)
                        | None \<Rightarrow> (Inr (), emit (Stderr (HttpFailure code)) w3))
                 | URLError \<Rightarrow> (Inr (), log ERROR SendFailed w3)
                 | OtherError \<Rightarrow> (Inr (), log ERROR UnexpectedError w3)
                 | Delivered \<Rightarrow>
                     (case os_remove event (yield w3) of
                        Inl e \<Rightarrow> (Inl e, yield w3)
                      | Inr w4 \<Rightarrow>
                          (Inr (), log INFO (SentAndRemoved (path_join directory event)) w4))))"

fun process ::
    "env \<Rightarrow> string \<Rightarrow> string \<Rightarrow> int \<Rightarrow> string list \<Rightarrow> world \<Rightarrow> (exn + unit) \<times> world" where
  "process env endpoint directory port [] w = (Inr (), w)"
| "process env endpoint directory port (event # events) w =
     (case handle_event env endpoint directory port event w of
        (Inl e, w') \<Rightarrow> (Inl e, w')
      | (Inr u, w') \<Rightarrow> process env endpoint directory port events w')"

definition flush :: "env \<Rightarrow> string \<Rightarrow> string \<Rightarrow> int \<Rightarrow> world \<Rightarrow> (exn + unit) \<times> world" where
  "flush env endpoint directory port w =
     (let events = select_events directory (map fst (files w)) in
      case stat_all events w of
        (Inl e, w1) \<Rightarrow> (Inl e, w1)
      | (Inr keys, w1) \<Rightarrow>
          process env endpoint directory port (map snd (sort_key fst (zip keys events))) w1)"

subsection \<open>\<^verbatim>\<open>lock_and_flush\<close>\<close>

text \<open>
  \<^verbatim>\<open>open(lock_filename, "w")\<close> stands before the \<^verbatim>\<open>try\<close>: it creates or truncates the
  lock file, or raises. Inside the \<^verbatim>\<open>try\<close>, \<^verbatim>\<open>fcntl.flock\<close> takes the exclusive lock
  (it returns once the lock is free) or raises, and \<^verbatim>\<open>flush\<close> runs. The
  \<^verbatim>\<open>finally\<close> clause closes the lock file, which gives the lock up, and the exception
  of the body, if any, goes on to the caller.
\<close>

definition close_lock :: "world \<Rightarrow> world" where
  "close_lock w = w\<lparr>lock_open := False, lock_held := False\<rparr>"

definition lock_and_flush :: "env \<Rightarrow> string \<Rightarrow> string \<Rightarrow> int \<Rightarrow> world \<Rightarrow> (exn + unit) \<times> world" where
  "lock_and_flush env endpoint directory port w =
     (if open_lock_fails env then (Inl OSError, w)
      else
        let w1 = (write_file ''lockfile'' \<lparr>mtime = clock env, body = Text []\<rparr> w)\<lparr>lock_open := True\<rparr>;
            (r, w2) = (if flock_fails env then (Inl OSError, w1)
                       else flush env endpoint directory port (w1\<lparr>lock_held := True\<rparr>))
        in (r, close_lock w2))"

subsection \<open>Notions the statements use\<close>

text \<open>
  The outcomes for which \<^verbatim>\<open>urlopen\<close> is called; the exception that \<^verbatim>\<open>e.read()\<close>
  raises in the handler of \<^verbatim>\<open>HTTPError\<close>, if it does; and the outcomes after which the
  loop body calls \<^verbatim>\<open>os.remove\<close>: a delivered request, and a status from 400 to 499
  other than 429 whose body has been read.
\<close>

definition requested :: "outcome \<Rightarrow> bool" where
  "requested r \<longleftrightarrow> r \<noteq> NotRequested"

definition raised :: "outcome \<Rightarrow> exn option" where
  "raised r = (case r of HTTPError code body_read \<Rightarrow> body_read | _ \<Rightarrow> None)"

definition deletes :: "outcome \<Rightarrow> bool" where
  "deletes r = (case r of
      Delivered \<Rightarrow> True
    | HTTPError code None \<Rightarrow> code \<noteq> 429 \<and> 400 \<le> code \<and> code \<le> 499
    | _ \<Rightarrow> False)"

text \<open>The files a trace opens, posts and deletes, in the order of the trace.\<close>

definition opened :: "effect list \<Rightarrow> string list" where
  "opened tr = concat (map (\<lambda>x. case x of Open n \<Rightarrow> [n] | _ \<Rightarrow> []) tr)"

definition posted :: "effect list \<Rightarrow> string list" where
  "posted tr = concat (map (\<lambda>x. case x of Post n u b \<Rightarrow> [n] | _ \<Rightarrow> []) tr)"

definition unlinked :: "effect list \<Rightarrow> string list" where
  "unlinked tr = concat (map (\<lambda>x. case x of Unlink n \<Rightarrow> [n] | _ \<Rightarrow> []) tr)"

text \<open>The modification time of a directory entry, and whether it holds text.\<close>

definition mtime_of :: "dir \<Rightarrow> string \<Rightarrow> int" where
  "mtime_of d n = (case map_of d n of None \<Rightarrow> 0 | Some f \<Rightarrow> mtime f)"

definition is_text :: "dir \<Rightarrow> string \<Rightarrow> bool" where
  "is_text d n = (case map_of d n of None \<Rightarrow> False | Some f \<Rightarrow> body f \<noteq> Garbled)"

text \<open>
  Other processes leave the files \<open>es\<close> alone when no step of their script removes or
  writes one of them. That is what the lock and the unique names give: another flush
  waits for the lock, and a \<^verbatim>\<open>persist_event\<close> at work writes files of its own.
\<close>

fun ext_target :: "ext \<Rightarrow> string" where
  "ext_target (ExtRemove n) = n"
| "ext_target (ExtPut n f) = n"

definition undisturbed :: "string list \<Rightarrow> world \<Rightarrow> bool" where
  "undisturbed es w \<longleftrightarrow> (\<forall>slot\<in>set (racers w). \<forall>a\<in>set slot. ext_target a \<notin> set es)"

text \<open>
  What the loop body appends to the trace once the request has its outcome, when nothing
  disturbs \<^verbatim>\<open>os.remove\<close>.
\<close>

definition outcome_effects :: "string \<Rightarrow> string \<Rightarrow> outcome \<Rightarrow> effect list" where
  "outcome_effects directory event r = (case r of
      NotRequested \<Rightarrow> [Log ERROR UnexpectedError]
    | Delivered \<Rightarrow> [Unlink event, Log INFO (SentAndRemoved (path_join directory event))]
    | HTTPError code (Some x) \<Rightarrow> []
    | HTTPError code None \<Rightarrow>
        if code = 429 then [Log WARN TooManyRequests]
        else if 400 \<le> code \<and> code \<le> 499 then [Log WARN NotAccepted, Unlink event]
        else [Stderr (HttpFailure code)]
    | URLError \<Rightarrow> [Log ERROR SendFailed]
    | OtherError \<Rightarrow> [Log ERROR UnexpectedError])"

definition event_url :: "string \<Rightarrow> int \<Rightarrow> string" where
  "event_url endpoint port = endpoint @ '':'' @ str_int port @ ''/api/v1/events/icinga''"

text \<open>
  One turn of the loop for an event file that is read as \<open>s\<close>, when nothing disturbs
  \<^verbatim>\<open>os.remove\<close>: what it appends to the trace, and how it ends.
\<close>

definition turn_effects :: "string \<Rightarrow> string \<Rightarrow> string \<Rightarrow> string \<Rightarrow> outcome \<Rightarrow> effect list" where
  "turn_effects directory event url s r =
     [Open event, Log INFO (SendingEvent (path_join directory event))] @
     (if requested r then [Post event url s] else []) @ outcome_effects directory event r"

definition turn_result :: "outcome \<Rightarrow> exn + unit" where
  "turn_result r = (case raised r of Some x \<Rightarrow> Inl x | None \<Rightarrow> Inr ())"

subsection \<open>A concrete directory and server, for instances of the theorems\<close>

text \<open>
  Four events written at times 10 to 40, listed out of order between the lock file and
  the temporary file of a writer at work; the contents of \<open>b\<close> end with a carriage
  return and a line feed. The server accepts \<open>a\<close>, answers 429 for \<open>b\<close>, 404 for
  \<open>c\<close> and 503 for \<open>d\<close>, each with a body that can be read.
\<close>

definition demo_files :: dir where
  "demo_files =
     [(''lockfile'', \<lparr>mtime = 0, body = Text []\<rparr>),
      (''c.ilert'', \<lparr>mtime = 30, body = Text ''C''\<rparr>),
      (''a.ilert'', \<lparr>mtime = 10, body = Text ''A''\<rparr>),
      (''u9.tmp'', \<lparr>mtime = 25, body = Text ''<?x''\<rparr>),
      (''d.ilert'', \<lparr>mtime = 40, body = Text ''D''\<rparr>),
      (''b.ilert'', \<lparr>mtime = 20, body = Text (''B'' @ [CHR 0x0D, CHR 0x0A])\<rparr>)]"

definition demo_world :: world where
  "demo_world = \<lparr>files = demo_files, racers = [], trace = [], lock_open = False, lock_held = False\<rparr>"

definition demo_reply :: "string \<Rightarrow> outcome" where
  "demo_reply n =
     (if n = ''a.ilert'' then Delivered
      else if n = ''b.ilert'' then HTTPError 429 None
      else if n = ''c.ilert'' then HTTPError 404 None
      else if n = ''d.ilert'' then HTTPError 503 None
      else URLError)"

definition demo_env :: env where
  "demo_env = \<lparr>reply = demo_reply, open_lock_fails = False, flock_fails = False, clock = 50\<rparr>"

text \<open>The world after one flush of \<open>demo_world\<close>.\<close>

definition demo_after :: world where
 "demo_after = \<lparr>files =
     [(''lockfile'', \<lparr>mtime = 0, body = Text []\<rparr>),
      (''u9.tmp'', \<lparr>mtime = 25, body = Text ''<?x''\<rparr>),
      (''d.ilert'', \<lparr>mtime = 40, body = Text ''D''\<rparr>),
      (''b.ilert'', \<lparr>mtime = 20, body = Text (''B'' @ [CHR 0x0D, CHR 0x0A])\<rparr>)],
     racers = [],
     trace =
       [Open ''a.ilert'',
        Log INFO (SendingEvent ''/tmp/ilert-icinga/a.ilert''),
        Post ''a.ilert'' ''https://api.ilert.com:443/api/v1/events/icinga''
         ''A'',
        Unlink ''a.ilert'',
        Log INFO (SentAndRemoved ''/tmp/ilert-icinga/a.ilert''),
        Open ''b.ilert'',
        Log INFO (SendingEvent ''/tmp/ilert-icinga/b.ilert''),
        Post ''b.ilert'' ''https://api.ilert.com:443/api/v1/events/icinga''
         (''B'' @ [CHR 0x0A]),
        Log WARN TooManyRequests, Open ''c.ilert'',
        Log INFO (SendingEvent ''/tmp/ilert-icinga/c.ilert''),
        Post ''c.ilert'' ''https://api.ilert.com:443/api/v1/events/icinga''
         ''C'',
        Log WARN NotAccepted, Unlink ''c.ilert'', Open ''d.ilert'',
        Log INFO (SendingEvent ''/tmp/ilert-icinga/d.ilert''),
        Post ''d.ilert'' ''https://api.ilert.com:443/api/v1/events/icinga''
         ''D'',
        Stderr (HttpFailure 503)],
     lock_open = False, lock_held = False\<rparr>"

text \<open>
  A server that accepts everything, and directories that another process disturbs: it
  deletes \<open>a\<close> after flush has read it and before flush deletes it (\<open>race_world\<close>); it
  deletes \<open>b\<close> after the sort and before flush opens it (\<open>vanish_world\<close>); it deletes
  \<open>b\<close> between the listing and the first modification-time lookup
  (\<open>early_vanish_world\<close>). In \<open>garbled_world\<close> nothing interferes, but the oldest event
  file is not UTF-8.
\<close>

definition accept_env :: env where
  "accept_env = \<lparr>reply = (\<lambda>n. Delivered), open_lock_fails = False, flock_fails = False, clock = 50\<rparr>"

definition two_files :: dir where
  "two_files =
     [(''a.ilert'', \<lparr>mtime = 10, body = Text ''A''\<rparr>),
      (''b.ilert'', \<lparr>mtime = 20, body = Text ''B''\<rparr>)]"

definition three_files :: dir where
  "three_files =
     [(''a.ilert'', \<lparr>mtime = 10, body = Text ''A''\<rparr>),
      (''b.ilert'', \<lparr>mtime = 20, body = Text ''B''\<rparr>),
      (''c.ilert'', \<lparr>mtime = 30, body = Text ''C''\<rparr>)]"

definition race_world :: world where
  "race_world = \<lparr>files = two_files, racers = [[], [], [], [ExtRemove ''a.ilert'']],
     trace = [], lock_open = False, lock_held = False\<rparr>"

definition vanish_world :: world where
  "vanish_world = \<lparr>files = three_files, racers = [[], [], [], [], [], [ExtRemove ''b.ilert'']],
     trace = [], lock_open = False, lock_held = False\<rparr>"

definition early_vanish_world :: world where
  "early_vanish_world = \<lparr>files = two_files, racers = [[ExtRemove ''b.ilert'']],
     trace = [], lock_open = False, lock_held = False\<rparr>"

definition garbled_world :: world where
  "garbled_world = \<lparr>files =
       [(''a.ilert'', \<lparr>mtime = 10, body = Garbled\<rparr>),
        (''b.ilert'', \<lparr>mtime = 20, body = Text ''B''\<rparr>)],
     racers = [], trace = [], lock_open = False, lock_held = False\<rparr>"

text \<open>
  The directory some time after that flush: the retained events \<open>b\<close> and \<open>d\<close>, and a
  new event \<open>e\<close> written at time 50.
\<close>

definition demo_later :: world where
  "demo_later = \<lparr>files = files demo_after @ [(''e.ilert'', \<lparr>mtime = 50, body = Text ''E''\<rparr>)],
     racers = [], trace = [], lock_open = False, lock_held = False\<rparr>"

text \<open>
  The directory of \<open>demo_world\<close> while another process persists a new event \<open>e\<close>
  during the flush: it creates \<^verbatim>\<open>e.tmp\<close>, writes it, and renames it to \<^verbatim>\<open>e.ilert\<close>.
  The listed event files are left alone. \<open>busy_after\<close> is the world after the flush.
\<close>

definition busy_world :: world where
  "busy_world = \<lparr>files = demo_files,
     racers =
       [[],
        [ExtPut ''e.tmp'' \<lparr>mtime = 50, body = Text []\<rparr>],
        [],
        [ExtPut ''e.tmp'' \<lparr>mtime = 50, body = Text ''E''\<rparr>],
        [],
        [ExtRemove ''e.tmp'', ExtPut ''e.ilert'' \<lparr>mtime = 50, body = Text ''E''\<rparr>]],
     trace = [], lock_open = False, lock_held = False\<rparr>"

definition busy_after :: world where
  "busy_after = \<lparr>files = files demo_after @ [(''e.ilert'', \<lparr>mtime = 50, body = Text ''E''\<rparr>)],
     racers = [], trace = trace demo_after, lock_open = False, lock_held = False\<rparr>"

text \<open>
  Three events in a directory that nothing disturbs, and a server that accepts \<open>a\<close> and
  answers 404 for \<open>b\<close> with a body that is cut short, so that \<^verbatim>\<open>e.read()\<close> raises
  \<^verbatim>\<open>IncompleteRead\<close>. In \<open>garbled_batch_world\<close> the second of three events is not
  UTF-8.
\<close>

definition three_world :: world where
  "three_world = \<lparr>files = three_files, racers = [], trace = [], lock_open = False, lock_held = False\<rparr>"

definition cut_short_env :: env where
  "cut_short_env = \<lparr>reply = (\<lambda>n. if n = ''b.ilert'' then HTTPError 404 (Some IncompleteRead) else Delivered),
     open_lock_fails = False, flock_fails = False, clock = 50\<rparr>"

definition garbled_batch_world :: world where
  "garbled_batch_world = \<lparr>files =
       [(''a.ilert'', \<lparr>mtime = 10, body = Text ''A''\<rparr>),
        (''b.ilert'', \<lparr>mtime = 20, body = Garbled\<rparr>),
        (''c.ilert'', \<lparr>mtime = 30, body = Text ''C''\<rparr>)],
     racers = [], trace = [], lock_open = False, lock_held = False\<rparr>"

lemma endswith_suffix: "endswith x s \<longleftrightarrow> suffix s x"
proof
  assume "endswith x s"
  then have "x = take (length x - length s) x @ s"
    by (metis append_take_drop_id endswith_def)
  then show "suffix s x" by (metis suffixI)
next
  assume "suffix s x"
  then obtain p where "x = p @ s" by (auto simp: suffix_def)
  then show "endswith x s" by (simp add: endswith_def)
qed

lemma suffix_after_sep:
  assumes "suffix s (a @ c # b)" and "c \<notin> set s"
  shows "suffix s b"
proof -
  from assms(1) have "suffix s (c # b) \<or> (\<exists>xs. s = xs @ c # b \<and> suffix xs a)"
    by (simp only: suffix_append)
  with assms(2) have "suffix s (c # b)" by auto
  then have "s = c # b \<or> suffix s b" by (simp only: suffix_Cons)
  with assms(2) show ?thesis by auto
qed

lemma endswith_sep:
  assumes "c \<notin> set s"
  shows "endswith (a @ c # b) s = endswith b s"
  using assms suffix_after_sep[of s a c b]
  by (auto simp: endswith_suffix intro: suffix_appendI suffix_ConsI)

lemma endswith_path_join:
  "endswith (path_join directory f) ''.ilert'' = endswith f ''.ilert''"
proof -
  have sep: "\<And>a. endswith (a @ CHR ''/'' # f) ''.ilert'' = endswith f ''.ilert''"
    by (rule endswith_sep) simp
  show ?thesis
  proof (cases "take 1 f = ''/'' \<or> directory = []")
    case True
    then show ?thesis by (auto simp: path_join_def)
  next
    case False
    show ?thesis
    proof (cases "endswith directory ''/''")
      case True
      then obtain a where a: "directory = a @ ''/''"
        by (auto simp: endswith_suffix suffix_def)
      have "path_join directory f = a @ CHR ''/'' # f"
        using False True a by (simp add: path_join_def)
      then show ?thesis by (simp only: sep)
    next
      case no_slash: False
      have "path_join directory f = directory @ CHR ''/'' # f"
        using False no_slash by (simp add: path_join_def)
      then show ?thesis by (simp only: sep)
    qed
  qed
qed

lemma select_events_eq: "select_events directory names = filter (\<lambda>f. endswith f ''.ilert'') names"
  by (simp add: select_events_def endswith_path_join)

lemma tmp_not_event: "\<not> endswith (uid @ ''.tmp'') ''.ilert''"
proof
  assume "endswith (uid @ ''.tmp'') ''.ilert''"
  then have "suffix ''.ilert'' (uid @ ''.tmp'')" by (simp add: endswith_suffix)
  then obtain p where "uid @ ''.tmp'' = p @ ''.ilert''" by (auto simp: suffix_def)
  then have "last (uid @ ''.tmp'') = last (p @ ''.ilert'')" by simp
  then show False by simp
qed

lemma lockfile_not_event: "\<not> endswith ''lockfile'' ''.ilert''"
  by (simp add: endswith_def)

lemma event_name_endswith: "endswith (uid @ ''.ilert'') ''.ilert''"
  by (simp add: endswith_suffix suffix_def)

lemma tmp_neq_event: "uid @ ''.tmp'' \<noteq> uid @ ''.ilert''"
  by simp

lemma map_of_write_file:
  "map_of (files (write_file n f w)) m = (if m = n then Some f else map_of (files w) m)"
  by (simp add: write_file_def update_conv')

lemma files_log [simp]: "files (log l m w) = files w"
  by (simp add: log_def)

lemma persist_event_cases:
  "persist_event api_key directory payload uid now fault w = (st, w') \<Longrightarrow>
   (let doc = create_xml api_key payload; tmp = uid @ ''.tmp''; perm = uid @ ''.ilert'';
        old = map_of (files w)
    in case fault of
         NoFault \<Rightarrow> st = Returned \<and>
           map_of (files w') = (old(tmp := None))(perm \<mapsto> \<lparr>mtime = now, body = Text doc\<rparr>)
       | OpenFails \<Rightarrow> st = Exited 1 \<and> map_of (files w') = old
       | WriteFails k \<Rightarrow> st = Exited 1 \<and>
           map_of (files w') = old(tmp \<mapsto> \<lparr>mtime = now, body = Text (take k doc)\<rparr>)
       | CloseFails \<Rightarrow> st = Exited 1 \<and>
           map_of (files w') = old(tmp \<mapsto> \<lparr>mtime = now, body = Text doc\<rparr>)
       | RenameFails \<Rightarrow> st = Exited 1 \<and>
           map_of (files w') = old(tmp \<mapsto> \<lparr>mtime = now, body = Text doc\<rparr>))"
  by (cases fault)
     (auto simp: persist_event_def Let_def write_file_def os_rename_def update_conv' delete_conv' log_def
           split: sum.splits option.splits)

text \<open>
  C2. \<^verbatim>\<open>persist_event\<close> writes the document to the file with the temporary suffix and
  then renames it to the permanent suffix. Whatever I/O failure it meets, every entry with
  the permanent suffix is either as it was before the call or the new event's file with the
  complete document, and that only when no failure occurred. On success the call returns,
  the permanent file holds the complete document and the temporary file is gone. On every
  failure the call ends in \<^verbatim>\<open>exit(1)\<close> and no entry with the permanent suffix has
  changed; when the rename fails the complete document is in the temporary file.
\<close>

theorem persist_event_atomic:
  assumes "persist_event api_key directory payload uid now fault w = (st, w')"
  shows "(\<forall>n. endswith n ''.ilert'' \<longrightarrow>
            map_of (files w') n = map_of (files w) n \<or>
            n = uid @ ''.ilert'' \<and> fault = NoFault \<and>
              map_of (files w') n = Some \<lparr>mtime = now, body = Text (create_xml api_key payload)\<rparr>) \<and>
         (fault = NoFault \<longrightarrow> st = Returned \<and>
            map_of (files w') (uid @ ''.ilert'') = Some \<lparr>mtime = now, body = Text (create_xml api_key payload)\<rparr> \<and>
            map_of (files w') (uid @ ''.tmp'') = None) \<and>
         (fault \<noteq> NoFault \<longrightarrow> st = Exited 1 \<and>
            (\<forall>n. endswith n ''.ilert'' \<longrightarrow> map_of (files w') n = map_of (files w) n)) \<and>
         (fault = RenameFails \<longrightarrow>
            map_of (files w') (uid @ ''.tmp'') = Some \<lparr>mtime = now, body = Text (create_xml api_key payload)\<rparr>)"
proof -
  have tmp: "\<And>n. endswith n ''.ilert'' \<Longrightarrow> n \<noteq> uid @ ''.tmp''"
    using tmp_not_event by blast
  show ?thesis
    using persist_event_cases[OF assms] tmp
    by (cases fault) (auto simp: Let_def)
qed

theorem persist_event_atomic_witness:
  "fst (persist_event ''key'' ''/tmp/ilert-icinga'' [(''HOSTNAME'', ''web1'')] ''u1'' 50 (WriteFails 9) demo_world)
     = Exited 1 \<and>
   map_of (files (snd (persist_event ''key'' ''/tmp/ilert-icinga'' [(''HOSTNAME'', ''web1'')] ''u1'' 50
     (WriteFails 9) demo_world))) ''u1.ilert'' = None \<and>
   map_of (files (snd (persist_event ''key'' ''/tmp/ilert-icinga'' [(''HOSTNAME'', ''web1'')] ''u1'' 50
     (WriteFails 9) demo_world))) ''a.ilert'' = Some \<lparr>mtime = 10, body = Text ''A''\<rparr> \<and>
   fst (persist_event ''key'' ''/tmp/ilert-icinga'' [(''HOSTNAME'', ''web1'')] ''u1'' 50 NoFault demo_world)
     = Returned \<and>
   map_of (files (snd (persist_event ''key'' ''/tmp/ilert-icinga'' [(''HOSTNAME'', ''web1'')] ''u1'' 50
     NoFault demo_world))) ''u1.ilert''
     = Some \<lparr>mtime = 50, body = Text (create_xml ''key'' [(''HOSTNAME'', ''web1'')])\<rparr>"
proof -
  let ?bad = "persist_event ''key'' ''/tmp/ilert-icinga'' [(''HOSTNAME'', ''web1'')] ''u1'' 50 (WriteFails 9) demo_world"
  let ?good = "persist_event ''key'' ''/tmp/ilert-icinga'' [(''HOSTNAME'', ''web1'')] ''u1'' 50 NoFault demo_world"
  have b: "?bad = (fst ?bad, snd ?bad)" and g: "?good = (fst ?good, snd ?good)" by simp_all
  have e1: "endswith ''u1.ilert'' ''.ilert''" and e2: "endswith ''a.ilert'' ''.ilert''"
    by (simp_all add: endswith_def)
  have old: "map_of (files demo_world) ''u1.ilert'' = None"
    "map_of (files demo_world) ''a.ilert'' = Some \<lparr>mtime = 10, body = Text ''A''\<rparr>"
    by (simp_all add: demo_world_def demo_files_def)
  from persist_event_atomic[OF b] e1 e2 old
  have "fst ?bad = Exited 1 \<and> map_of (files (snd ?bad)) ''u1.ilert'' = None \<and>
        map_of (files (snd ?bad)) ''a.ilert'' = Some \<lparr>mtime = 10, body = Text ''A''\<rparr>"
    by simp
  moreover from persist_event_atomic[OF g]
  have "fst ?good = Returned \<and> map_of (files (snd ?good)) ''u1.ilert''
     = Some \<lparr>mtime = 50, body = Text (create_xml ''key'' [(''HOSTNAME'', ''web1'')])\<rparr>"
    by simp
  ultimately show ?thesis by simp
qed

lemma yield_quiet [simp]: "racers w = [] \<Longrightarrow> yield w = w"
  by (simp add: yield_def)

lemma opened_simps [simp]:
  "opened [] = []" "opened (xs @ ys) = opened xs @ opened ys"
  "opened (Open n # xs) = n # opened xs" "opened (Post n u b # xs) = opened xs"
  "opened (Unlink n # xs) = opened xs" "opened (Log l m # xs) = opened xs"
  "opened (Stderr m # xs) = opened xs"
  by (simp_all add: opened_def)

lemma posted_simps [simp]:
  "posted [] = []" "posted (xs @ ys) = posted xs @ posted ys"
  "posted (Open n # xs) = posted xs" "posted (Post n u b # xs) = n # posted xs"
  "posted (Unlink n # xs) = posted xs" "posted (Log l m # xs) = posted xs"
  "posted (Stderr m # xs) = posted xs"
  by (simp_all add: posted_def)

lemma unlinked_simps [simp]:
  "unlinked [] = []" "unlinked (xs @ ys) = unlinked xs @ unlinked ys"
  "unlinked (Open n # xs) = unlinked xs" "unlinked (Post n u b # xs) = unlinked xs"
  "unlinked (Unlink n # xs) = n # unlinked xs" "unlinked (Log l m # xs) = unlinked xs"
  "unlinked (Stderr m # xs) = unlinked xs"
  by (simp_all add: unlinked_def)

lemma deletes_raised: "deletes r \<Longrightarrow> raised r = None"
  by (auto simp: deletes_def raised_def split: outcome.splits option.splits)

lemma deletes_requested: "deletes r \<Longrightarrow> requested r"
  by (auto simp: deletes_def requested_def split: outcome.splits option.splits)

lemma raised_requested: "raised r = Some x \<Longrightarrow> requested r"
  by (auto simp: raised_def requested_def split: outcome.splits)

lemma handle_event_quiet:
  assumes "racers w = []"
  shows "handle_event env endpoint directory port event w =
     (case map_of (files w) event of
        None \<Rightarrow> (Inr (), emit (Open event) w)
      | Some f \<Rightarrow>
          (case body f of
             Garbled \<Rightarrow> (Inl UnicodeDecodeError, emit (Open event) w)
           | Text s \<Rightarrow>
               (turn_result (reply env event),
                w\<lparr>files := (if deletes (reply env event) then AList.delete event (files w) else files w),
                  trace := trace w @ turn_effects directory event (event_url endpoint port)
                                       (universal_newlines s) (reply env event)\<rparr>)))"
  using assms
  by (auto simp: handle_event_def Let_def read_text_def os_remove_def emit_def log_def yield_def
        deletes_def outcome_effects_def event_url_def turn_effects_def turn_result_def raised_def
        requested_def
        split: option.splits contents.splits outcome.splits sum.splits exn.splits)

lemma yield_fields [simp]:
  "trace (yield w) = trace w" "lock_held (yield w) = lock_held w" "lock_open (yield w) = lock_open w"
  by (simp_all add: yield_def split: list.splits)

lemma emit_fields [simp]:
  "trace (emit x w) = trace w @ [x]" "files (emit x w) = files w" "racers (emit x w) = racers w"
  "lock_held (emit x w) = lock_held w" "lock_open (emit x w) = lock_open w"
  by (simp_all add: emit_def)

lemma log_fields [simp]:
  "trace (log l m w) = trace w @ [Log l m]" "racers (log l m w) = racers w"
  "lock_held (log l m w) = lock_held w" "lock_open (log l m w) = lock_open w"
  by (simp_all add: log_def)

lemma unlinked_outcome_effects:
  "unlinked (outcome_effects directory e r) = (if deletes r then [e] else [])"
  by (simp add: outcome_effects_def deletes_def split: outcome.splits option.splits)

lemma posted_outcome_effects: "posted (outcome_effects directory e r) = []"
  by (simp add: outcome_effects_def split: outcome.splits option.splits)

lemma opened_outcome_effects: "opened (outcome_effects directory e r) = []"
  by (simp add: outcome_effects_def split: outcome.splits option.splits)

lemma turn_effects_lists:
  "opened (turn_effects directory e url s r) = [e]"
  "posted (turn_effects directory e url s r) = (if requested r then [e] else [])"
  "unlinked (turn_effects directory e url s r) = (if deletes r then [e] else [])"
  by (simp_all add: turn_effects_def unlinked_outcome_effects posted_outcome_effects
        opened_outcome_effects)

lemma os_remove_cases:
  "(os_remove n w = Inl OSError \<and> map_of (files w) n = None) \<or>
   (\<exists>w'. os_remove n w = Inr w' \<and> trace w' = trace w @ [Unlink n] \<and>
      files w' = AList.delete n (files w) \<and> racers w' = racers w \<and>
      lock_held w' = lock_held w \<and> lock_open w' = lock_open w \<and> map_of (files w) n \<noteq> None)"
  by (auto simp: os_remove_def emit_def split: option.splits)

text \<open>What one turn of the loop can be: the ways it ends, with the trace of each.\<close>

lemma handle_event_shape:
  assumes "handle_event env endpoint directory port event w = (r, w')"
  shows "\<exists>new. trace w' = trace w @ new \<and> lock_held w' = lock_held w \<and> lock_open w' = lock_open w \<and>
     (r = Inr () \<and> new = [Open event] \<or>
      r = Inl UnicodeDecodeError \<and> new = [Open event] \<or>
      (\<exists>s. r = turn_result (reply env event) \<and>
         new = turn_effects directory event (event_url endpoint port) s (reply env event)) \<or>
      (\<exists>s. r = Inl OSError \<and> deletes (reply env event) \<and>
         new = [Open event, Log INFO (SendingEvent (path_join directory event)),
                Post event (event_url endpoint port) s] @
               (if reply env event = Delivered then [] else [Log WARN NotAccepted])))"
proof -
  let ?w1 = "emit (Open event) (yield w)"
  show ?thesis
  proof (cases "read_text event ?w1")
    case (Inl x)
    have "x = OSError \<or> x = UnicodeDecodeError"
      using Inl by (auto simp: read_text_def split: option.splits contents.splits)
    with Inl assms show ?thesis
      by (auto simp: handle_event_def Let_def)
  next
    case (Inr s)
    let ?w2 = "log INFO (SendingEvent (path_join directory event)) ?w1"
    let ?w3 = "emit (Post event (event_url endpoint port) s) ?w2"
    show ?thesis
    proof (cases "reply env event")
      case NotRequested
      with assms Inr show ?thesis
        by (auto simp: handle_event_def Let_def event_url_def deletes_def outcome_effects_def
              turn_effects_def turn_result_def raised_def requested_def)
    next
      case Delivered
      from os_remove_cases[of event "yield ?w3"] assms Inr Delivered show ?thesis
        by (auto simp: handle_event_def Let_def event_url_def deletes_def outcome_effects_def
              turn_effects_def turn_result_def raised_def requested_def)
    next
      case (HTTPError code body_read)
      show ?thesis
      proof (cases body_read)
        case (Some x)
        with assms Inr HTTPError have "r = Inl x" "w' = ?w3"
          by (auto simp: handle_event_def Let_def event_url_def split: if_splits)
        with HTTPError Some show ?thesis
          by (simp add: outcome_effects_def turn_effects_def turn_result_def raised_def requested_def)
      next
        case None
        let ?w4 = "log WARN NotAccepted ?w3"
        from os_remove_cases[of event "yield ?w4"] assms Inr HTTPError None show ?thesis
          by (auto simp: handle_event_def Let_def event_url_def deletes_def outcome_effects_def
                turn_effects_def turn_result_def raised_def requested_def)
      qed
    next
      case URLError
      with assms Inr show ?thesis
        by (auto simp: handle_event_def Let_def event_url_def deletes_def outcome_effects_def
              turn_effects_def turn_result_def raised_def requested_def)
    next
      case OtherError
      with assms Inr show ?thesis
        by (auto simp: handle_event_def Let_def event_url_def deletes_def outcome_effects_def
              turn_effects_def turn_result_def raised_def requested_def)
    qed
  qed
qed

lemma turn_result_cases:
  "turn_result r = Inl x \<longleftrightarrow> raised r = Some x"
  "turn_result r = Inr u \<longleftrightarrow> raised r = None"
  by (auto simp: turn_result_def split: option.splits)

lemma handle_event_trace:
  assumes "handle_event env endpoint directory port event w = (r, w')"
  shows "\<exists>new. trace w' = trace w @ new \<and> opened new = [event] \<and>
           set (posted new) \<subseteq> {event} \<and> set (unlinked new) \<subseteq> {event} \<and>
           (unlinked new \<noteq> [] \<longrightarrow> deletes (reply env event) \<and> posted new = [event]) \<and>
           (\<forall>x. r = Inl x \<longrightarrow>
              x = UnicodeDecodeError \<and> posted new = [] \<or>
              x = OSError \<and> deletes (reply env event) \<and> posted new = [event] \<and> unlinked new = [] \<or>
              raised (reply env event) = Some x \<and> posted new = [event] \<and> unlinked new = []) \<and>
           lock_held w' = lock_held w \<and> lock_open w' = lock_open w"
proof -
  from handle_event_shape[OF assms] obtain new where n: "trace w' = trace w @ new"
    "lock_held w' = lock_held w" "lock_open w' = lock_open w"
    and sh: "r = Inr () \<and> new = [Open event] \<or>
      r = Inl UnicodeDecodeError \<and> new = [Open event] \<or>
      (\<exists>s. r = turn_result (reply env event) \<and>
         new = turn_effects directory event (event_url endpoint port) s (reply env event)) \<or>
      (\<exists>s. r = Inl OSError \<and> deletes (reply env event) \<and>
         new = [Open event, Log INFO (SendingEvent (path_join directory event)),
                Post event (event_url endpoint port) s] @
               (if reply env event = Delivered then [] else [Log WARN NotAccepted]))"
    by blast
  have "opened new = [event] \<and>
           set (posted new) \<subseteq> {event} \<and> set (unlinked new) \<subseteq> {event} \<and>
           (unlinked new \<noteq> [] \<longrightarrow> deletes (reply env event) \<and> posted new = [event]) \<and>
           (\<forall>x. r = Inl x \<longrightarrow>
              x = UnicodeDecodeError \<and> posted new = [] \<or>
              x = OSError \<and> deletes (reply env event) \<and> posted new = [event] \<and> unlinked new = [] \<or>
              raised (reply env event) = Some x \<and> posted new = [event] \<and> unlinked new = [])"
    using sh
  proof (elim disjE exE conjE)
    assume "r = Inr ()" "new = [Open event]"
    then show ?thesis by simp
  next
    assume "r = Inl UnicodeDecodeError" "new = [Open event]"
    then show ?thesis by simp
  next
    fix s assume a: "r = turn_result (reply env event)"
      "new = turn_effects directory event (event_url endpoint port) s (reply env event)"
    have "\<forall>x. r = Inl x \<longrightarrow> raised (reply env event) = Some x \<and> posted new = [event] \<and> unlinked new = []"
    proof (intro allI impI)
      fix x assume "r = Inl x"
      with a(1) have "turn_result (reply env event) = Inl x" by simp
      then have rx: "raised (reply env event) = Some x" by (simp only: turn_result_cases)
      then have "requested (reply env event)" by (rule raised_requested)
      moreover have "\<not> deletes (reply env event)" using rx deletes_raised by fastforce
      ultimately show "raised (reply env event) = Some x \<and> posted new = [event] \<and> unlinked new = []"
        using rx a(2) by (simp add: turn_effects_lists)
    qed
    moreover have "opened new = [event]" "set (posted new) \<subseteq> {event}" "set (unlinked new) \<subseteq> {event}"
      "unlinked new \<noteq> [] \<longrightarrow> deletes (reply env event) \<and> posted new = [event]"
      using a(2) by (auto simp: turn_effects_lists deletes_requested)
    ultimately show ?thesis by blast
  next
    fix s assume "r = Inl OSError" "deletes (reply env event)"
      "new = [Open event, Log INFO (SendingEvent (path_join directory event)),
                Post event (event_url endpoint port) s] @
               (if reply env event = Delivered then [] else [Log WARN NotAccepted])"
    then show ?thesis by simp
  qed
  with n show ?thesis by blast
qed

lemma process_trace:
  assumes "process env endpoint directory port es w = (r, w')"
  shows "\<exists>new. trace w' = trace w @ new \<and>
           (r = Inr () \<longrightarrow> opened new = es) \<and>
           (\<forall>x. r = Inl x \<longrightarrow>
              (\<exists>pre e rest. es = pre @ e # rest \<and> opened new = pre @ [e] \<and>
                 (x = UnicodeDecodeError \<or>
                  posted new \<noteq> [] \<and> last (posted new) = e \<and>
                    (x = OSError \<and> deletes (reply env e) \<or> raised (reply env e) = Some x)))) \<and>
           set (posted new) \<subseteq> set es \<and>
           set (unlinked new) \<subseteq> {n \<in> set (posted new). deletes (reply env n)} \<and>
           lock_held w' = lock_held w \<and> lock_open w' = lock_open w"
  using assms
proof (induction es arbitrary: w)
  case Nil
  then show ?case by auto
next
  case (Cons e es)
  obtain r1 w1 where h: "handle_event env endpoint directory port e w = (r1, w1)"
    by (cases "handle_event env endpoint directory port e w")
  from handle_event_trace[OF h] obtain new1 where n1:
    "trace w1 = trace w @ new1" "opened new1 = [e]" "set (posted new1) \<subseteq> {e}"
    "set (unlinked new1) \<subseteq> {e}" "unlinked new1 \<noteq> [] \<longrightarrow> deletes (reply env e) \<and> posted new1 = [e]"
    "\<forall>x. r1 = Inl x \<longrightarrow> x = UnicodeDecodeError \<and> posted new1 = [] \<or>
        x = OSError \<and> deletes (reply env e) \<and> posted new1 = [e] \<and> unlinked new1 = [] \<or>
        raised (reply env e) = Some x \<and> posted new1 = [e] \<and> unlinked new1 = []"
    "lock_held w1 = lock_held w" "lock_open w1 = lock_open w"
    by blast
  have ul1: "set (unlinked new1) \<subseteq> {n \<in> set (posted new1). deletes (reply env n)}"
    using n1(4,5) by (cases "unlinked new1") auto
  show ?case
  proof (cases r1)
    case (Inl x)
    with h Cons.prems have r: "r = Inl x" "w' = w1" by auto
    have "e # es = [] @ e # es \<and> opened new1 = [] @ [e]" using n1(2) by simp
    moreover have "x = UnicodeDecodeError \<or>
        posted new1 \<noteq> [] \<and> last (posted new1) = e \<and>
          (x = OSError \<and> deletes (reply env e) \<or> raised (reply env e) = Some x)"
      using n1(6) Inl by auto
    ultimately have "\<exists>pre e' rest. e # es = pre @ e' # rest \<and> opened new1 = pre @ [e'] \<and>
        (x = UnicodeDecodeError \<or>
         posted new1 \<noteq> [] \<and> last (posted new1) = e' \<and>
           (x = OSError \<and> deletes (reply env e') \<or> raised (reply env e') = Some x))"
      by blast
    then have "\<forall>y. r = Inl y \<longrightarrow> (\<exists>pre e' rest. e # es = pre @ e' # rest \<and> opened new1 = pre @ [e'] \<and>
        (y = UnicodeDecodeError \<or>
         posted new1 \<noteq> [] \<and> last (posted new1) = e' \<and>
           (y = OSError \<and> deletes (reply env e') \<or> raised (reply env e') = Some y)))"
      using r(1) by simp
    moreover have "set (posted new1) \<subseteq> set (e # es)" using n1(3) by auto
    ultimately show ?thesis using r n1(1,7,8) ul1
      by (intro exI[of _ new1]) simp
  next
    case (Inr u)
    with h Cons.prems have p: "process env endpoint directory port es w1 = (r, w')" by simp
    from Cons.IH[OF p] obtain new2 where n2:
      "trace w' = trace w1 @ new2" "r = Inr () \<longrightarrow> opened new2 = es"
      "\<forall>x. r = Inl x \<longrightarrow>
              (\<exists>pre e rest. es = pre @ e # rest \<and> opened new2 = pre @ [e] \<and>
                 (x = UnicodeDecodeError \<or>
                  posted new2 \<noteq> [] \<and> last (posted new2) = e \<and>
                    (x = OSError \<and> deletes (reply env e) \<or> raised (reply env e) = Some x)))"
      "set (posted new2) \<subseteq> set es"
      "set (unlinked new2) \<subseteq> {n \<in> set (posted new2). deletes (reply env n)}"
      "lock_held w' = lock_held w1" "lock_open w' = lock_open w1"
      by blast
    have a: "trace w' = trace w @ (new1 @ new2)" using n1(1) n2(1) by simp
    have b: "r = Inr () \<longrightarrow> opened (new1 @ new2) = e # es" using n1(2) n2(2) by simp
    have c: "\<forall>x. r = Inl x \<longrightarrow>
              (\<exists>pre e' rest. e # es = pre @ e' # rest \<and> opened (new1 @ new2) = pre @ [e'] \<and>
                 (x = UnicodeDecodeError \<or>
                  posted (new1 @ new2) \<noteq> [] \<and> last (posted (new1 @ new2)) = e' \<and>
                    (x = OSError \<and> deletes (reply env e') \<or> raised (reply env e') = Some x)))"
    proof (intro allI impI)
      fix x assume "r = Inl x"
      with n2(3) obtain pre e' rest where d: "es = pre @ e' # rest" "opened new2 = pre @ [e']"
        "x = UnicodeDecodeError \<or>
         posted new2 \<noteq> [] \<and> last (posted new2) = e' \<and>
           (x = OSError \<and> deletes (reply env e') \<or> raised (reply env e') = Some x)"
        by blast
      from d(3) have "x = UnicodeDecodeError \<or>
         posted (new1 @ new2) \<noteq> [] \<and> last (posted (new1 @ new2)) = e' \<and>
           (x = OSError \<and> deletes (reply env e') \<or> raised (reply env e') = Some x)"
        by auto
      with d(1,2) n1(2) show "\<exists>pre e' rest. e # es = pre @ e' # rest \<and> opened (new1 @ new2) = pre @ [e'] \<and>
                 (x = UnicodeDecodeError \<or>
                  posted (new1 @ new2) \<noteq> [] \<and> last (posted (new1 @ new2)) = e' \<and>
                    (x = OSError \<and> deletes (reply env e') \<or> raised (reply env e') = Some x))"
        by (intro exI[of _ "e # pre"] exI[of _ e'] exI[of _ rest]) simp
    qed
    have d: "set (posted (new1 @ new2)) \<subseteq> set (e # es)" using n1(3) n2(4) by auto
    have e: "set (unlinked (new1 @ new2)) \<subseteq> {n \<in> set (posted (new1 @ new2)). deletes (reply env n)}"
      using ul1 n2(5) by auto
    have f: "lock_held w' = lock_held w \<and> lock_open w' = lock_open w"
      using n1(7,8) n2(6,7) by simp
    from a b c d e f show ?thesis by blast
  qed
qed

lemma process_append:
  "process env endpoint directory port (xs @ ys) w =
     (case process env endpoint directory port xs w of
        (Inl x, w1) \<Rightarrow> (Inl x, w1)
      | (Inr u, w1) \<Rightarrow> process env endpoint directory port ys w1)"
  by (induction xs arbitrary: w) (auto split: prod.splits sum.splits)

lemma stat_all_fields:
  "stat_all ns w = (r, w') \<Longrightarrow>
     trace w' = trace w \<and> lock_held w' = lock_held w \<and> lock_open w' = lock_open w"
proof (induction ns arbitrary: w r w')
  case Nil
  then show ?case by simp
next
  case (Cons n ns)
  show ?case
  proof (cases "getmtime n (yield w)")
    case (Inl e)
    with Cons.prems show ?thesis by (auto simp: Let_def)
  next
    case (Inr t)
    obtain r2 w2 where s: "stat_all ns (yield w) = (r2, w2)" by (cases "stat_all ns (yield w)")
    from Cons.IH[OF s] have "trace w2 = trace w \<and> lock_held w2 = lock_held w \<and> lock_open w2 = lock_open w"
      by simp
    moreover from Cons.prems Inr s have "w' = w2" by (simp add: Let_def split: sum.splits)
    ultimately show ?thesis by simp
  qed
qed

lemma stat_all_length: "stat_all ns w = (Inr ts, w') \<Longrightarrow> length ts = length ns"
proof (induction ns arbitrary: w ts w')
  case Nil
  then show ?case by simp
next
  case (Cons n ns)
  then show ?case
    by (auto simp: Let_def split: sum.splits prod.splits)
qed

lemma stat_all_raises: "stat_all ns w = (Inl x, w') \<Longrightarrow> x = OSError"
proof (induction ns arbitrary: w w')
  case Nil
  then show ?case by simp
next
  case (Cons n ns)
  then show ?case
    by (auto simp: Let_def getmtime_def split: sum.splits prod.splits option.splits)
qed

lemma stat_all_quiet:
  assumes "racers w = []"
  shows "stat_all ns w =
     (if \<forall>n\<in>set ns. map_of (files w) n \<noteq> None then (Inr (map (mtime_of (files w)) ns), w)
      else (Inl OSError, w))"
  using assms
  by (induction ns) (auto simp: Let_def getmtime_def mtime_of_def split: option.splits)

lemma insort_key_zip:
  assumes "\<forall>p\<in>set ys. fst p = f (snd p)"
  shows "map snd (insort_key fst (f x, x) ys) = insort_key f x (map snd ys)"
  using assms by (induction ys) auto

lemma set_insort_key_zip:
  "\<forall>p\<in>set ys. fst p = f (snd p) \<Longrightarrow> \<forall>p\<in>set (insort_key fst (f x, x) ys). fst p = f (snd p)"
  by (auto simp: set_insort_key)

lemma sort_key_zip:
  "map snd (sort_key fst (zip (map f xs) xs)) = sort_key f xs \<and>
   (\<forall>p\<in>set (sort_key fst (zip (map f xs) xs)). fst p = f (snd p))"
proof (induction xs)
  case Nil
  then show ?case by simp
next
  case (Cons x xs)
  then show ?case
    by (simp add: insort_key_zip) (auto simp: set_insort_key)
qed

lemma flush_quiet:
  assumes "racers w = []"
  shows "flush env endpoint directory port w =
     process env endpoint directory port
       (sort_key (mtime_of (files w)) (select_events directory (map fst (files w)))) w"
proof -
  let ?evs = "select_events directory (map fst (files w))"
  have "\<forall>n\<in>set ?evs. map_of (files w) n \<noteq> None"
    by (auto simp: select_events_def map_of_eq_None_iff)
  then have "stat_all ?evs w = (Inr (map (mtime_of (files w)) ?evs), w)"
    using stat_all_quiet[OF assms] by simp
  then show ?thesis
    by (simp add: flush_def Let_def sort_key_zip)
qed

lemma set_sorted_zip:
  assumes "length ts = length evs"
  shows "set (map snd (sort_key fst (zip ts evs))) = set evs \<and>
         length (map snd (sort_key fst (zip ts evs))) = length evs"
proof -
  have "set (map snd (sort_key fst (zip ts evs))) = snd ` set (zip ts evs)" by simp
  also have "\<dots> = set (map snd (zip ts evs))" by simp
  also have "\<dots> = set evs" using assms by simp
  finally show ?thesis using assms by simp
qed

lemma flush_trace:
  assumes "flush env endpoint directory port w = (r, w')"
  shows "\<exists>new. trace w' = trace w @ new \<and>
           (r = Inr () \<longrightarrow> set (opened new) = set (select_events directory (map fst (files w))) \<and>
              length (opened new) = length (select_events directory (map fst (files w)))) \<and>
           (\<forall>x. r = Inl x \<longrightarrow>
              x = OSError \<and> new = [] \<or>
              (\<exists>pre e. opened new = pre @ [e] \<and>
                 (x = UnicodeDecodeError \<or>
                  posted new \<noteq> [] \<and> last (posted new) = e \<and>
                    (x = OSError \<and> deletes (reply env e) \<or> raised (reply env e) = Some x)))) \<and>
           set (opened new) \<subseteq> set (select_events directory (map fst (files w))) \<and>
           set (posted new) \<subseteq> set (select_events directory (map fst (files w))) \<and>
           set (unlinked new) \<subseteq> {n \<in> set (posted new). deletes (reply env n)} \<and>
           lock_held w' = lock_held w \<and> lock_open w' = lock_open w"
proof -
  let ?evs = "select_events directory (map fst (files w))"
  obtain r1 w1 where s: "stat_all ?evs w = (r1, w1)" by (cases "stat_all ?evs w")
  note f1 = stat_all_fields[OF s]
  show ?thesis
  proof (cases r1)
    case (Inl x)
    with s have "x = OSError" by (auto dest: stat_all_raises)
    moreover from Inl s assms have "r = Inl x" "w' = w1" by (auto simp: flush_def Let_def)
    ultimately show ?thesis using f1 by (intro exI[of _ "[]"]) simp
  next
    case (Inr ts)
    let ?sorted = "map snd (sort_key fst (zip ts ?evs))"
    from Inr s have len: "length ts = length ?evs" by (auto dest: stat_all_length)
    note so = set_sorted_zip[OF len]
    from Inr s assms have p: "process env endpoint directory port ?sorted w1 = (r, w')"
      by (simp add: flush_def Let_def)
    from process_trace[OF p] obtain new where n:
      "trace w' = trace w1 @ new" "r = Inr () \<longrightarrow> opened new = ?sorted"
      "\<forall>x. r = Inl x \<longrightarrow> (\<exists>pre e rest. ?sorted = pre @ e # rest \<and> opened new = pre @ [e] \<and>
                 (x = UnicodeDecodeError \<or>
                  posted new \<noteq> [] \<and> last (posted new) = e \<and>
                    (x = OSError \<and> deletes (reply env e) \<or> raised (reply env e) = Some x)))"
      "set (posted new) \<subseteq> set ?sorted"
      "set (unlinked new) \<subseteq> {n \<in> set (posted new). deletes (reply env n)}"
      "lock_held w' = lock_held w1" "lock_open w' = lock_open w1"
      by blast
    have op: "set (opened new) \<subseteq> set ?sorted"
    proof (cases r)
      case (Inl x)
      with n(3) obtain pre e rest where pe: "?sorted = pre @ e # rest" "opened new = pre @ [e]" by blast
      have "set ?sorted = set (pre @ e # rest)" by (simp only: pe(1))
      moreover have "set (opened new) = set (pre @ [e])" by (simp only: pe(2))
      ultimately show ?thesis by auto
    next
      case (Inr u)
      with n(2) show ?thesis by simp
    qed
    have a: "trace w' = trace w @ new" using n(1) f1 by simp
    have b: "r = Inr () \<longrightarrow> set (opened new) = set ?evs \<and> length (opened new) = length ?evs"
      using n(2) so by metis
    have c: "\<forall>x. r = Inl x \<longrightarrow> x = OSError \<and> new = [] \<or>
              (\<exists>pre e. opened new = pre @ [e] \<and>
                 (x = UnicodeDecodeError \<or>
                  posted new \<noteq> [] \<and> last (posted new) = e \<and>
                    (x = OSError \<and> deletes (reply env e) \<or> raised (reply env e) = Some x)))"
      using n(3) by blast
    have d: "set (opened new) \<subseteq> set ?evs" "set (posted new) \<subseteq> set ?evs"
      using op n(4) so by auto
    have e: "lock_held w' = lock_held w \<and> lock_open w' = lock_open w"
      using n(6,7) f1 by simp
    from a b c d n(5) e show ?thesis by blast
  qed
qed

lemma apply_ext_other: "ext_target a \<noteq> n \<Longrightarrow> map_of (apply_ext a d) n = map_of d n"
  by (cases a) (simp_all add: delete_conv' update_conv')

lemma fold_apply_ext_other:
  "\<forall>a\<in>set slot. ext_target a \<noteq> n \<Longrightarrow> map_of (fold apply_ext slot d) n = map_of d n"
  by (induction slot arbitrary: d) (simp_all add: apply_ext_other)

lemma yield_undisturbed:
  assumes "undisturbed es w"
  shows "undisturbed es (yield w)" and "\<And>n. n \<in> set es \<Longrightarrow> map_of (files (yield w)) n = map_of (files w) n"
proof -
  show "undisturbed es (yield w)"
    using assms by (cases "racers w") (auto simp: undisturbed_def yield_def)
  fix n assume n: "n \<in> set es"
  show "map_of (files (yield w)) n = map_of (files w) n"
  proof (cases "racers w")
    case Nil
    then show ?thesis by (simp add: yield_def)
  next
    case (Cons slot rest)
    with assms n have "\<forall>a\<in>set slot. ext_target a \<noteq> n" by (auto simp: undisturbed_def)
    with Cons show ?thesis by (simp add: yield_def fold_apply_ext_other)
  qed
qed

lemma undisturbed_fields [simp]:
  "undisturbed es (emit x w) = undisturbed es w"
  "undisturbed es (log l m w) = undisturbed es w"
  "undisturbed es (w\<lparr>files := d\<rparr>) = undisturbed es w"
  "undisturbed es (w\<lparr>trace := t\<rparr>) = undisturbed es w"
  by (simp_all add: undisturbed_def emit_def log_def)

lemma quiet_undisturbed: "racers w = [] \<Longrightarrow> undisturbed es w"
  by (simp add: undisturbed_def)

text \<open>
  One turn of the loop for a listed event, when other processes leave the listed events
  alone: the three ways it goes, with what it does to the listed events and to the trace.
\<close>

lemma handle_event_undisturbed:
  assumes "undisturbed es w" and "e \<in> set es"
    and "handle_event env endpoint directory port e w = (r1, w1)"
  shows "undisturbed es w1 \<and>
     (map_of (files w) e = None \<and> r1 = Inr () \<and> trace w1 = trace w @ [Open e] \<and>
        (\<forall>n\<in>set es. map_of (files w1) n = map_of (files w) n) \<or>
      (\<exists>f. map_of (files w) e = Some f \<and> body f = Garbled) \<and> r1 = Inl UnicodeDecodeError \<and>
        trace w1 = trace w @ [Open e] \<and> (\<forall>n\<in>set es. map_of (files w1) n = map_of (files w) n) \<or>
      (\<exists>f s. map_of (files w) e = Some f \<and> body f = Text s \<and> r1 = turn_result (reply env e) \<and>
        trace w1 = trace w @ turn_effects directory e (event_url endpoint port)
                               (universal_newlines s) (reply env e) \<and>
        (\<forall>n\<in>set es. map_of (files w1) n =
            (if n = e \<and> deletes (reply env e) then None else map_of (files w) n))))"
proof -
  let ?y = "yield w"
  let ?w1 = "emit (Open e) ?y"
  note y = yield_undisturbed[OF assms(1)]
  have ye: "map_of (files ?y) e = map_of (files w) e" using y(2) assms(2) by simp
  show ?thesis
  proof (cases "map_of (files w) e")
    case None
    with ye assms(3) have "r1 = Inr ()" "w1 = ?w1"
      by (simp_all add: handle_event_def Let_def read_text_def)
    with None y show ?thesis by simp
  next
    case (Some f)
    show ?thesis
    proof (cases "body f")
      case Garbled
      with Some ye assms(3) have "r1 = Inl UnicodeDecodeError" "w1 = ?w1"
        by (simp_all add: handle_event_def Let_def read_text_def)
      with Some Garbled y show ?thesis by simp
    next
      case (Text s0)
      define s where "s = universal_newlines s0"
      let ?w2 = "log INFO (SendingEvent (path_join directory e)) ?w1"
      let ?w3 = "emit (Post e (event_url endpoint port) s) ?w2"
      have rd: "read_text e ?w1 = Inr s" using Some Text ye by (simp add: read_text_def s_def)
      have u2: "undisturbed es ?w2" using y(1) by simp
      have f2: "\<And>n. n \<in> set es \<Longrightarrow> map_of (files ?w2) n = map_of (files w) n"
        using y(2) by (simp add: log_def)
      have u3: "undisturbed es ?w3" using y(1) by simp
      have f3: "\<And>n. n \<in> set es \<Longrightarrow> map_of (files ?w3) n = map_of (files w) n"
        using y(2) by (simp add: log_def)
      have rm: "\<exists>w5. os_remove e (yield v) = Inr w5 \<and> undisturbed es w5 \<and>
            trace w5 = trace v @ [Unlink e] \<and>
            (\<forall>n\<in>set es. map_of (files w5) n = (if n = e then None else map_of (files w) n))"
        if uv: "undisturbed es v" and fv: "\<And>n. n \<in> set es \<Longrightarrow> map_of (files v) n = map_of (files w) n"
        for v
      proof -
        note yv = yield_undisturbed[OF uv]
        have "map_of (files (yield v)) e = Some f" using yv(2) fv assms(2) Some by simp
        then have "os_remove e (yield v) =
            Inr (emit (Unlink e) ((yield v)\<lparr>files := AList.delete e (files (yield v))\<rparr>))"
          by (simp add: os_remove_def)
        moreover have "\<forall>n\<in>set es. map_of (AList.delete e (files (yield v))) n
            = (if n = e then None else map_of (files w) n)"
          using yv(2) fv by (simp add: delete_conv')
        ultimately show ?thesis using yv(1) by simp
      qed
      have goal: ?thesis
        if res: "r1 = turn_result (reply env e)"
          and tr: "trace w1 = trace w @ turn_effects directory e (event_url endpoint port) s (reply env e)"
          and un: "undisturbed es w1"
          and fi: "\<forall>n\<in>set es. map_of (files w1) n =
            (if n = e \<and> deletes (reply env e) then None else map_of (files w) n)"
        using that Some Text unfolding s_def by blast
      show ?thesis
      proof (cases "reply env e")
        case NotRequested
        with assms(3) rd have "r1 = Inr ()" "w1 = log ERROR UnexpectedError ?w2"
          by (simp_all add: handle_event_def Let_def event_url_def)
        with NotRequested u2 f2 show ?thesis
          by (intro goal)
             (auto simp: outcome_effects_def deletes_def log_def turn_effects_def turn_result_def
                raised_def requested_def)
      next
        case Delivered
        from rm[OF u3 f3] obtain w5 where w5: "os_remove e (yield ?w3) = Inr w5" "undisturbed es w5"
          "trace w5 = trace ?w3 @ [Unlink e]"
          "\<forall>n\<in>set es. map_of (files w5) n = (if n = e then None else map_of (files w) n)"
          by blast
        from assms(3) rd Delivered w5(1) have "r1 = Inr ()"
          "w1 = log INFO (SentAndRemoved (path_join directory e)) w5"
          by (simp_all add: handle_event_def Let_def event_url_def)
        with Delivered w5 show ?thesis
          by (intro goal)
             (simp_all add: outcome_effects_def deletes_def log_def turn_effects_def turn_result_def
                raised_def requested_def)
      next
        case (HTTPError code body_read)
        show ?thesis
        proof (cases body_read)
          case (Some x)
          with assms(3) rd HTTPError have "r1 = Inl x" "w1 = ?w3"
            by (auto simp: handle_event_def Let_def event_url_def split: if_splits)
          with HTTPError Some u3 f3 show ?thesis
            by (intro goal)
               (auto simp: outcome_effects_def deletes_def log_def turn_effects_def turn_result_def
                  raised_def requested_def)
        next
          case None
          show ?thesis
          proof (cases "code \<noteq> 429 \<and> 400 \<le> code \<and> code \<le> 499")
            case True
            let ?w4 = "log WARN NotAccepted ?w3"
            have u4: "undisturbed es ?w4" using u3 by simp
            have f4: "\<And>n. n \<in> set es \<Longrightarrow> map_of (files ?w4) n = map_of (files w) n"
              using f3 by (simp add: log_def)
            from rm[OF u4 f4] obtain w5 where w5: "os_remove e (yield ?w4) = Inr w5" "undisturbed es w5"
              "trace w5 = trace ?w4 @ [Unlink e]"
              "\<forall>n\<in>set es. map_of (files w5) n = (if n = e then None else map_of (files w) n)"
              by blast
            from assms(3) rd HTTPError None True w5(1) have "r1 = Inr ()" "w1 = w5"
              by (simp_all add: handle_event_def Let_def event_url_def)
            with HTTPError None True w5 show ?thesis
              by (intro goal)
                 (simp_all add: outcome_effects_def deletes_def turn_effects_def turn_result_def
                    raised_def requested_def)
          next
            case False
            with assms(3) rd HTTPError None have "r1 = Inr ()"
              "w1 = (if code = 429 then log WARN TooManyRequests ?w3 else emit (Stderr (HttpFailure code)) ?w3)"
              by (auto simp: handle_event_def Let_def event_url_def)
            with HTTPError None False u3 f3 show ?thesis
              by (intro goal)
                 (auto simp: outcome_effects_def deletes_def log_def turn_effects_def turn_result_def
                    raised_def requested_def)
          qed
        qed
      next
        case URLError
        with assms(3) rd have "r1 = Inr ()" "w1 = log ERROR SendFailed ?w3"
          by (simp_all add: handle_event_def Let_def event_url_def)
        with URLError u3 f3 show ?thesis
          by (intro goal)
             (auto simp: outcome_effects_def deletes_def log_def turn_effects_def turn_result_def
                raised_def requested_def)
      next
        case OtherError
        with assms(3) rd have "r1 = Inr ()" "w1 = log ERROR UnexpectedError ?w3"
          by (simp_all add: handle_event_def Let_def event_url_def)
        with OtherError u3 f3 show ?thesis
          by (intro goal)
             (auto simp: outcome_effects_def deletes_def log_def turn_effects_def turn_result_def
                raised_def requested_def)
      qed
    qed
  qed
qed

lemma handle_event_undisturbed_cases:
  assumes "undisturbed es w" and "e \<in> set es"
    and "handle_event env endpoint directory port e w = (r1, w1)"
  obtains
    (absent) "map_of (files w) e = None" "r1 = Inr ()" "undisturbed es w1"
      "trace w1 = trace w @ [Open e]" "\<forall>n\<in>set es. map_of (files w1) n = map_of (files w) n"
  | (garbled) f where "map_of (files w) e = Some f" "body f = Garbled"
      "r1 = Inl UnicodeDecodeError" "undisturbed es w1"
      "trace w1 = trace w @ [Open e]" "\<forall>n\<in>set es. map_of (files w1) n = map_of (files w) n"
  | (readable) f s where "map_of (files w) e = Some f" "body f = Text s"
      "raised (reply env e) = None" "r1 = Inr ()"
      "undisturbed es w1"
      "trace w1 = trace w @ turn_effects directory e (event_url endpoint port)
                             (universal_newlines s) (reply env e)"
      "\<forall>n\<in>set es. map_of (files w1) n =
          (if n = e \<and> deletes (reply env e) then None else map_of (files w) n)"
  | (aborted) f s x where "map_of (files w) e = Some f" "body f = Text s"
      "raised (reply env e) = Some x" "r1 = Inl x"
      "undisturbed es w1"
      "trace w1 = trace w @ turn_effects directory e (event_url endpoint port)
                             (universal_newlines s) (reply env e)"
      "\<forall>n\<in>set es. map_of (files w1) n = map_of (files w) n"
proof -
  note hu = handle_event_undisturbed[OF assms]
  have u: "undisturbed es w1" using hu by (rule conjunct1)
  note dis = conjunct2[OF hu]
  from dis show ?thesis
  proof (elim disjE)
    assume "map_of (files w) e = None \<and> r1 = Inr () \<and> trace w1 = trace w @ [Open e] \<and>
        (\<forall>n\<in>set es. map_of (files w1) n = map_of (files w) n)"
    with u show ?thesis by (intro absent) simp_all
  next
    assume "(\<exists>f. map_of (files w) e = Some f \<and> body f = Garbled) \<and> r1 = Inl UnicodeDecodeError \<and>
        trace w1 = trace w @ [Open e] \<and> (\<forall>n\<in>set es. map_of (files w1) n = map_of (files w) n)"
    then obtain f where "map_of (files w) e = Some f" "body f = Garbled" "r1 = Inl UnicodeDecodeError"
      "trace w1 = trace w @ [Open e]" "\<forall>n\<in>set es. map_of (files w1) n = map_of (files w) n"
      by blast
    with u show ?thesis by (intro garbled[of f])
  next
    assume "\<exists>f s. map_of (files w) e = Some f \<and> body f = Text s \<and> r1 = turn_result (reply env e) \<and>
        trace w1 = trace w @ turn_effects directory e (event_url endpoint port)
                               (universal_newlines s) (reply env e) \<and>
        (\<forall>n\<in>set es. map_of (files w1) n =
            (if n = e \<and> deletes (reply env e) then None else map_of (files w) n))"
    then obtain f s where fs: "map_of (files w) e = Some f" "body f = Text s"
      "r1 = turn_result (reply env e)"
      "trace w1 = trace w @ turn_effects directory e (event_url endpoint port)
                               (universal_newlines s) (reply env e)"
      "\<forall>n\<in>set es. map_of (files w1) n =
            (if n = e \<and> deletes (reply env e) then None else map_of (files w) n)"
      by blast
    show ?thesis
    proof (cases "raised (reply env e)")
      case None
      then have "r1 = Inr ()" using fs(3) by (simp add: turn_result_def)
      with None fs u show ?thesis by (intro readable[of f s])
    next
      case (Some x)
      then have r: "r1 = Inl x" using fs(3) by (simp add: turn_result_def)
      have "\<not> deletes (reply env e)" using Some deletes_raised by fastforce
      with fs(5) have "\<forall>n\<in>set es. map_of (files w1) n = map_of (files w) n" by simp
      with Some r fs(1,2,4) u show ?thesis by (intro aborted[of f s x])
    qed
  qed
qed

lemma process_undisturbed_posted:
  assumes "undisturbed es w" and "set xs \<subseteq> set es" and "distinct xs"
    and "process env endpoint directory port xs w = (r, w')"
  shows "\<exists>new pre post. trace w' = trace w @ new \<and> xs = pre @ post \<and>
           posted new = filter (\<lambda>n. is_text (files w) n \<and> requested (reply env n)) pre \<and>
           (r = Inr () \<longrightarrow> post = [] \<and> opened new = xs) \<and>
           (\<forall>x. r = Inl x \<longrightarrow>
              x = UnicodeDecodeError \<and>
              (\<exists>g rest. post = g # rest \<and> map_of (files w) g \<noteq> None \<and> \<not> is_text (files w) g \<and>
                  opened new = pre @ [g]) \<or>
              (\<exists>pre0 g. pre = pre0 @ [g] \<and> is_text (files w) g \<and> raised (reply env g) = Some x \<and>
                  opened new = pre))"
  using assms
proof (induction xs arbitrary: w)
  case Nil
  then show ?case by auto
next
  case (Cons e xs)
  obtain r1 w1 where h: "handle_event env endpoint directory port e w = (r1, w1)"
    by (cases "handle_event env endpoint directory port e w")
  from Cons.prems(3) have d: "distinct xs" "e \<notin> set xs" by auto
  from Cons.prems(2) have sub: "set xs \<subseteq> set es" "e \<in> set es" by auto
  let ?P = "\<lambda>w n. is_text (files w) n \<and> requested (reply env n)"
  have step: ?case
    if p: "process env endpoint directory port xs w1 = (r, w')"
      and u1: "undisturbed es w1"
      and same: "\<And>n. n \<in> set xs \<Longrightarrow> map_of (files w1) n = map_of (files w) n"
      and tr: "trace w1 = trace w @ new1"
      and op: "opened new1 = [e]"
      and po: "posted new1 = filter (?P w) [e]"
    for new1
  proof -
    from Cons.IH[OF u1 sub(1) d(1) p] obtain new pre post where n:
      "trace w' = trace w1 @ new" "xs = pre @ post"
      "posted new = filter (?P w1) pre"
      "r = Inr () \<longrightarrow> post = [] \<and> opened new = xs"
      "\<forall>x. r = Inl x \<longrightarrow>
              x = UnicodeDecodeError \<and>
              (\<exists>g rest. post = g # rest \<and> map_of (files w1) g \<noteq> None \<and> \<not> is_text (files w1) g \<and>
                  opened new = pre @ [g]) \<or>
              (\<exists>pre0 g. pre = pre0 @ [g] \<and> is_text (files w1) g \<and> raised (reply env g) = Some x \<and>
                  opened new = pre)"
      by blast
    have tx: "\<And>n. n \<in> set xs \<Longrightarrow> is_text (files w1) n = is_text (files w) n"
      using same by (simp add: is_text_def)
    have a: "trace w' = trace w @ (new1 @ new)" using n(1) tr by simp
    have b: "e # xs = (e # pre) @ post" using n(2) by simp
    have "filter (?P w1) pre = filter (?P w) pre"
      using tx n(2) by (intro filter_cong) auto
    then have c: "posted (new1 @ new) = filter (?P w) (e # pre)"
      using n(3) po by simp
    have e': "r = Inr () \<longrightarrow> post = [] \<and> opened (new1 @ new) = e # xs"
      using n(4) op by simp
    have f': "\<forall>x. r = Inl x \<longrightarrow>
              x = UnicodeDecodeError \<and>
              (\<exists>g rest. post = g # rest \<and> map_of (files w) g \<noteq> None \<and> \<not> is_text (files w) g \<and>
                  opened (new1 @ new) = (e # pre) @ [g]) \<or>
              (\<exists>pre0 g. e # pre = pre0 @ [g] \<and> is_text (files w) g \<and> raised (reply env g) = Some x \<and>
                  opened (new1 @ new) = e # pre)"
    proof (intro allI impI)
      fix x assume "r = Inl x"
      with n(5) consider
          (dec) g rest where "x = UnicodeDecodeError" "post = g # rest"
            "map_of (files w1) g \<noteq> None" "\<not> is_text (files w1) g" "opened new = pre @ [g]"
        | (rd) pre0 g where "pre = pre0 @ [g]" "is_text (files w1) g"
            "raised (reply env g) = Some x" "opened new = pre"
        by blast
      then show "x = UnicodeDecodeError \<and>
              (\<exists>g rest. post = g # rest \<and> map_of (files w) g \<noteq> None \<and> \<not> is_text (files w) g \<and>
                  opened (new1 @ new) = (e # pre) @ [g]) \<or>
              (\<exists>pre0 g. e # pre = pre0 @ [g] \<and> is_text (files w) g \<and> raised (reply env g) = Some x \<and>
                  opened (new1 @ new) = e # pre)"
      proof cases
        case dec
        have "g \<in> set xs" using n(2) dec(2) by simp
        with same tx dec op show ?thesis by auto
      next
        case rd
        have "g \<in> set xs" using n(2) rd(1) by simp
        with tx rd op have "e # pre = (e # pre0) @ [g] \<and> is_text (files w) g \<and>
            raised (reply env g) = Some x \<and> opened (new1 @ new) = e # pre"
          by simp
        then show ?thesis by blast
      qed
    qed
    from a b c e' f' show ?thesis by blast
  qed
  from Cons.prems(1) sub(2) h show ?case
  proof (cases rule: handle_event_undisturbed_cases)
    case absent
    from h absent(2) Cons.prems(4) have p: "process env endpoint directory port xs w1 = (r, w')"
      by simp
    have same: "\<And>n. n \<in> set xs \<Longrightarrow> map_of (files w1) n = map_of (files w) n"
      using absent(5) sub(1) by auto
    have nt: "\<not> is_text (files w) e" using absent(1) by (simp add: is_text_def)
    show ?thesis
      using p absent(3) same absent(4) by (rule step) (simp_all add: nt)
  next
    case (garbled f)
    from h garbled(3) Cons.prems(4) have "w' = w1" "r = Inl UnicodeDecodeError" by auto
    with garbled(1,2,5) show ?thesis
      by (intro exI[of _ "[Open e]"] exI[of _ "[]"] exI[of _ "e # xs"]) (auto simp: is_text_def)
  next
    case (readable f s)
    from h readable(4) Cons.prems(4) have p: "process env endpoint directory port xs w1 = (r, w')"
      by simp
    have same: "\<And>n. n \<in> set xs \<Longrightarrow> map_of (files w1) n = map_of (files w) n"
    proof -
      fix n assume "n \<in> set xs"
      then have "n \<in> set es" "n \<noteq> e" using sub(1) d(2) by auto
      with readable(7) show "map_of (files w1) n = map_of (files w) n" by simp
    qed
    have it: "is_text (files w) e" using readable(1,2) by (simp add: is_text_def)
    show ?thesis
      using p readable(5) same readable(6) by (rule step) (simp_all add: turn_effects_lists it)
  next
    case (aborted f s x)
    from h aborted(4) Cons.prems(4) have r: "w' = w1" "r = Inl x" by auto
    have it: "is_text (files w) e" using aborted(1,2) by (simp add: is_text_def)
    have rq: "requested (reply env e)" using aborted(3) by (rule raised_requested)
    let ?new = "turn_effects directory e (event_url endpoint port) (universal_newlines s) (reply env e)"
    have a: "trace w' = trace w @ ?new" using r(1) aborted(6) by simp
    have b: "e # xs = [e] @ xs" by simp
    have c: "posted ?new = filter (\<lambda>n. is_text (files w) n \<and> requested (reply env n)) [e]"
      using it rq by (simp add: turn_effects_lists)
    have e': "r = Inr () \<longrightarrow> xs = [] \<and> opened ?new = e # xs" using r(2) by simp
    have "[e] = [] @ [e] \<and> is_text (files w) e \<and> raised (reply env e) = Some x \<and> opened ?new = [e]"
      using it aborted(3) by (simp add: turn_effects_lists)
    then have f': "\<forall>y. r = Inl y \<longrightarrow>
              y = UnicodeDecodeError \<and>
              (\<exists>g rest. xs = g # rest \<and> map_of (files w) g \<noteq> None \<and> \<not> is_text (files w) g \<and>
                  opened ?new = [e] @ [g]) \<or>
              (\<exists>pre0 g. [e] = pre0 @ [g] \<and> is_text (files w) g \<and> raised (reply env g) = Some y \<and>
                  opened ?new = [e])"
      using r(2) by blast
    from a b c e' f' show ?thesis by blast
  qed
qed

lemma post_not_in_outcome_effects: "Post n u b \<notin> set (outcome_effects directory e r)"
  by (auto simp: outcome_effects_def split: outcome.splits option.splits if_splits)

lemma post_in_turn_effects:
  "Post n u b \<in> set (turn_effects directory e url s r) \<longleftrightarrow> requested r \<and> n = e \<and> u = url \<and> b = s"
  by (auto simp: turn_effects_def post_not_in_outcome_effects)

text \<open>
  The loop over listed events that other processes leave alone: what it leaves in the
  trace and in the directory, in terms of the files as they were at the start.
\<close>

lemma process_undisturbed_table:
  assumes "undisturbed es w" and "set xs \<subseteq> set es" and "distinct xs"
    and "process env endpoint directory port xs w = (r, w')"
  shows "undisturbed es w' \<and> (\<exists>new. trace w' = trace w @ new \<and> set (opened new) \<subseteq> set xs \<and>
           (\<forall>n\<in>set es. map_of (files w') n =
              (if n \<in> set (unlinked new) then None else map_of (files w) n)) \<and>
           (\<forall>n\<in>set (opened new). \<forall>f s. map_of (files w) n = Some f \<and> body f = Text s \<longrightarrow>
              set (turn_effects directory n (event_url endpoint port) (universal_newlines s)
                     (reply env n)) \<subseteq> set new) \<and>
           (\<forall>n u b. Post n u b \<in> set new \<longrightarrow>
              n \<in> set xs \<and> u = event_url endpoint port \<and>
              (\<exists>f s. map_of (files w) n = Some f \<and> body f = Text s \<and> b = universal_newlines s)) \<and>
           posted new = filter (\<lambda>n. is_text (files w) n \<and> requested (reply env n)) (opened new) \<and>
           unlinked new = filter (\<lambda>n. is_text (files w) n \<and> deletes (reply env n)) (opened new) \<and>
           (\<forall>n\<in>set (opened new). \<forall>y. is_text (files w) n \<and> raised (reply env n) = Some y \<longrightarrow>
              r = Inl y))"
  using assms
proof (induction xs arbitrary: w)
  case Nil
  then show ?case by auto
next
  case (Cons e xs)
  obtain r1 w1 where h: "handle_event env endpoint directory port e w = (r1, w1)"
    by (cases "handle_event env endpoint directory port e w")
  from Cons.prems(3) have d: "distinct xs" "e \<notin> set xs" by auto
  from Cons.prems(2) have sub: "set xs \<subseteq> set es" "e \<in> set es" by auto
  let ?url = "event_url endpoint port"
  let ?P = "\<lambda>w n. is_text (files w) n \<and> requested (reply env n)"
  let ?D = "\<lambda>w n. is_text (files w) n \<and> deletes (reply env n)"
  have step: ?case
    if p: "process env endpoint directory port xs w1 = (r, w')"
      and u1: "undisturbed es w1"
      and tr: "trace w1 = trace w @ new1"
      and op: "opened new1 = [e]"
      and po: "posted new1 = filter (?P w) [e]"
      and ul: "unlinked new1 = filter (?D w) [e]"
      and fi: "\<forall>n\<in>set es. map_of (files w1) n =
                  (if n \<in> set (unlinked new1) then None else map_of (files w) n)"
      and te: "\<forall>f s. map_of (files w) e = Some f \<and> body f = Text s \<longrightarrow>
                  set (turn_effects directory e ?url (universal_newlines s) (reply env e)) \<subseteq> set new1"
      and pb: "\<forall>n u b. Post n u b \<in> set new1 \<longrightarrow> n = e \<and> u = ?url \<and>
                  (\<exists>f s. map_of (files w) n = Some f \<and> body f = Text s \<and> b = universal_newlines s)"
      and nr: "is_text (files w) e \<longrightarrow> raised (reply env e) = None"
    for new1
  proof -
    from Cons.IH[OF u1 sub(1) d(1) p] obtain new where n:
      "undisturbed es w'" "trace w' = trace w1 @ new" "set (opened new) \<subseteq> set xs"
      "\<forall>n\<in>set es. map_of (files w') n = (if n \<in> set (unlinked new) then None else map_of (files w1) n)"
      "\<forall>n\<in>set (opened new). \<forall>f s. map_of (files w1) n = Some f \<and> body f = Text s \<longrightarrow>
              set (turn_effects directory n ?url (universal_newlines s) (reply env n)) \<subseteq> set new"
      "\<forall>n u b. Post n u b \<in> set new \<longrightarrow>
              n \<in> set xs \<and> u = ?url \<and>
              (\<exists>f s. map_of (files w1) n = Some f \<and> body f = Text s \<and> b = universal_newlines s)"
      "posted new = filter (?P w1) (opened new)"
      "unlinked new = filter (?D w1) (opened new)"
      "\<forall>n\<in>set (opened new). \<forall>y. is_text (files w1) n \<and> raised (reply env n) = Some y \<longrightarrow> r = Inl y"
      by blast
    have ule: "set (unlinked new1) \<subseteq> {e}" using ul by auto
    have same: "map_of (files w1) m = map_of (files w) m" if "m \<in> set xs" for m
    proof -
      from that have "m \<in> set es" "m \<noteq> e" using sub(1) d(2) by auto
      with fi ule show ?thesis by auto
    qed
    have tx: "is_text (files w1) m = is_text (files w) m" if "m \<in> set xs" for m
      using same[OF that] by (simp add: is_text_def)
    have opx: "\<And>m. m \<in> set (opened new) \<Longrightarrow> m \<in> set xs" using n(3) by auto
    have a: "trace w' = trace w @ (new1 @ new)" using n(2) tr by simp
    have b: "set (opened (new1 @ new)) \<subseteq> set (e # xs)" using n(3) op by auto
    have c: "\<forall>m\<in>set es. map_of (files w') m =
        (if m \<in> set (unlinked (new1 @ new)) then None else map_of (files w) m)"
    proof
      fix m assume m: "m \<in> set es"
      with n(4) have 1: "map_of (files w') m = (if m \<in> set (unlinked new) then None else map_of (files w1) m)"
        by simp
      from fi m have 2: "map_of (files w1) m =
          (if m \<in> set (unlinked new1) then None else map_of (files w) m)" by simp
      show "map_of (files w') m = (if m \<in> set (unlinked (new1 @ new)) then None else map_of (files w) m)"
        unfolding 1 2 by auto
    qed
    have d': "\<forall>m\<in>set (opened (new1 @ new)). \<forall>f s. map_of (files w) m = Some f \<and> body f = Text s \<longrightarrow>
              set (turn_effects directory m ?url (universal_newlines s) (reply env m)) \<subseteq> set (new1 @ new)"
    proof (intro ballI allI impI)
      fix m f s assume m: "m \<in> set (opened (new1 @ new))"
        and fs: "map_of (files w) m = Some f \<and> body f = Text s"
      from m op consider "m = e" | "m \<in> set (opened new)" by auto
      then show "set (turn_effects directory m ?url (universal_newlines s) (reply env m)) \<subseteq> set (new1 @ new)"
      proof cases
        case 1
        with te fs have "set (turn_effects directory m ?url (universal_newlines s) (reply env m)) \<subseteq> set new1"
          by blast
        then show ?thesis by auto
      next
        case 2
        with fs same[OF opx[OF 2]] have "map_of (files w1) m = Some f \<and> body f = Text s" by simp
        with n(5) 2 have "set (turn_effects directory m ?url (universal_newlines s) (reply env m)) \<subseteq> set new"
          by blast
        then show ?thesis by auto
      qed
    qed
    have e': "\<forall>m u b. Post m u b \<in> set (new1 @ new) \<longrightarrow>
              m \<in> set (e # xs) \<and> u = ?url \<and>
              (\<exists>f s. map_of (files w) m = Some f \<and> body f = Text s \<and> b = universal_newlines s)"
    proof (intro allI impI)
      fix m u b assume "Post m u b \<in> set (new1 @ new)"
      then consider "Post m u b \<in> set new1" | "Post m u b \<in> set new" by auto
      then show "m \<in> set (e # xs) \<and> u = ?url \<and>
              (\<exists>f s. map_of (files w) m = Some f \<and> body f = Text s \<and> b = universal_newlines s)"
      proof cases
        case 1
        with pb show ?thesis by simp
      next
        case 2
        with n(6) have mx: "m \<in> set xs" and u: "u = ?url"
          and ex: "\<exists>f s. map_of (files w1) m = Some f \<and> body f = Text s \<and> b = universal_newlines s"
          by blast+
        from ex same[OF mx] have "\<exists>f s. map_of (files w) m = Some f \<and> body f = Text s \<and> b = universal_newlines s"
          by simp
        with mx u show ?thesis by simp
      qed
    qed
    have "filter (?P w1) (opened new) = filter (?P w) (opened new)"
      using tx opx by (intro filter_cong) auto
    then have f': "posted (new1 @ new) = filter (?P w) (opened (new1 @ new))"
      using n(7) po op by simp
    have "filter (?D w1) (opened new) = filter (?D w) (opened new)"
      using tx opx by (intro filter_cong) auto
    then have g': "unlinked (new1 @ new) = filter (?D w) (opened (new1 @ new))"
      using n(8) ul op by simp
    have h': "\<forall>m\<in>set (opened (new1 @ new)). \<forall>y. is_text (files w) m \<and> raised (reply env m) = Some y \<longrightarrow>
              r = Inl y"
    proof (intro ballI allI impI)
      fix m y assume m: "m \<in> set (opened (new1 @ new))"
        and my: "is_text (files w) m \<and> raised (reply env m) = Some y"
      from m op consider "m = e" | "m \<in> set (opened new)" by auto
      then show "r = Inl y"
      proof cases
        case 1
        with nr my show ?thesis by simp
      next
        case 2
        with my tx[OF opx[OF 2]] have "is_text (files w1) m \<and> raised (reply env m) = Some y" by simp
        with n(9) 2 show ?thesis by blast
      qed
    qed
    from n(1) a b c d' e' f' g' h' show ?thesis
      by (intro conjI exI[of _ "new1 @ new"])
  qed
  from Cons.prems(1) sub(2) h show ?case
  proof (cases rule: handle_event_undisturbed_cases)
    case absent
    from h absent(2) Cons.prems(4) have p: "process env endpoint directory port xs w1 = (r, w')"
      by simp
    have nt: "\<not> is_text (files w) e" using absent(1) by (simp add: is_text_def)
    show ?thesis
      using p absent(3,4)
    proof (rule step)
      show "\<forall>n\<in>set es. map_of (files w1) n =
          (if n \<in> set (unlinked [Open e]) then None else map_of (files w) n)"
        using absent(5) by simp
    qed (simp_all add: nt absent(1))
  next
    case (garbled f)
    from h garbled(3) Cons.prems(4) have "w' = w1" "r = Inl UnicodeDecodeError" by auto
    with garbled(1,2,4,5,6) show ?thesis
      by (intro conjI exI[of _ "[Open e]"]) (auto simp: is_text_def)
  next
    case (readable f s)
    from h readable(4) Cons.prems(4) have p: "process env endpoint directory port xs w1 = (r, w')"
      by simp
    have it: "is_text (files w) e" using readable(1,2) by (simp add: is_text_def)
    let ?new1 = "turn_effects directory e ?url (universal_newlines s) (reply env e)"
    show ?thesis
      using p readable(5,6)
    proof (rule step)
      show "\<forall>n\<in>set es. map_of (files w1) n =
          (if n \<in> set (unlinked ?new1) then None else map_of (files w) n)"
        using readable(7) by (auto simp: turn_effects_lists)
      show "\<forall>f s. map_of (files w) e = Some f \<and> body f = Text s \<longrightarrow>
          set (turn_effects directory e ?url (universal_newlines s) (reply env e)) \<subseteq> set ?new1"
        using readable(1,2) by auto
      show "\<forall>n u b. Post n u b \<in> set ?new1 \<longrightarrow> n = e \<and> u = ?url \<and>
          (\<exists>f s. map_of (files w) n = Some f \<and> body f = Text s \<and> b = universal_newlines s)"
        using readable(1,2) by (auto simp: post_in_turn_effects)
      show "is_text (files w) e \<longrightarrow> raised (reply env e) = None" using readable(3) by simp
    qed (simp_all add: turn_effects_lists it)
  next
    case (aborted f s x)
    from h aborted(4) Cons.prems(4) have r: "w' = w1" "r = Inl x" by auto
    have it: "is_text (files w) e" using aborted(1,2) by (simp add: is_text_def)
    have rq: "requested (reply env e)" using aborted(3) by (rule raised_requested)
    have nd: "\<not> deletes (reply env e)" using aborted(3) deletes_raised by fastforce
    let ?new1 = "turn_effects directory e ?url (universal_newlines s) (reply env e)"
    have a: "trace w' = trace w @ ?new1" using r(1) aborted(6) by simp
    have b: "set (opened ?new1) \<subseteq> set (e # xs)" by (simp add: turn_effects_lists)
    have c: "\<forall>n\<in>set es. map_of (files w') n =
        (if n \<in> set (unlinked ?new1) then None else map_of (files w) n)"
      using aborted(7) r(1) nd by (simp add: turn_effects_lists)
    have d': "\<forall>n\<in>set (opened ?new1). \<forall>f s. map_of (files w) n = Some f \<and> body f = Text s \<longrightarrow>
        set (turn_effects directory n ?url (universal_newlines s) (reply env n)) \<subseteq> set ?new1"
      using aborted(1,2) by (auto simp: turn_effects_lists)
    have e': "\<forall>n u b. Post n u b \<in> set ?new1 \<longrightarrow>
        n \<in> set (e # xs) \<and> u = ?url \<and>
        (\<exists>f s. map_of (files w) n = Some f \<and> body f = Text s \<and> b = universal_newlines s)"
      using aborted(1,2) by (auto simp: post_in_turn_effects)
    have f': "posted ?new1 = filter (?P w) (opened ?new1)" using it rq by (simp add: turn_effects_lists)
    have g': "unlinked ?new1 = filter (?D w) (opened ?new1)" using nd by (simp add: turn_effects_lists)
    have h': "\<forall>n\<in>set (opened ?new1). \<forall>y. is_text (files w) n \<and> raised (reply env n) = Some y \<longrightarrow>
        r = Inl y"
      using aborted(3) r(2) by (simp add: turn_effects_lists)
    have u: "undisturbed es w'" using aborted(5) r(1) by simp
    from u a b c d' e' f' g' h' show ?thesis
      by (intro conjI exI[of _ ?new1])
  qed
qed

lemma stat_all_undisturbed:
  assumes "undisturbed es w" and "set ns \<subseteq> set es" and "\<forall>n\<in>set ns. map_of (files w) n \<noteq> None"
  shows "\<exists>w0. stat_all ns w = (Inr (map (mtime_of (files w)) ns), w0) \<and> undisturbed es w0 \<and>
           (\<forall>n\<in>set es. map_of (files w0) n = map_of (files w) n) \<and> trace w0 = trace w"
  using assms
proof (induction ns arbitrary: w)
  case Nil
  then show ?case by simp
next
  case (Cons n ns)
  note y = yield_undisturbed[OF Cons.prems(1)]
  have n: "n \<in> set es" and ns: "set ns \<subseteq> set es" using Cons.prems(2) by auto
  have same: "\<And>m. m \<in> set es \<Longrightarrow> map_of (files (yield w)) m = map_of (files w) m"
    using y(2) by simp
  have g: "getmtime n (yield w) = Inr (mtime_of (files w) n)"
    using same[OF n] Cons.prems(3) by (auto simp: getmtime_def mtime_of_def split: option.splits)
  have pres: "\<forall>m\<in>set ns. map_of (files (yield w)) m \<noteq> None"
    using Cons.prems(3) same ns by auto
  from Cons.IH[OF y(1) ns pres] obtain w0 where w0:
    "stat_all ns (yield w) = (Inr (map (mtime_of (files (yield w))) ns), w0)" "undisturbed es w0"
    "\<forall>n\<in>set es. map_of (files w0) n = map_of (files (yield w)) n" "trace w0 = trace (yield w)"
    by blast
  have "map (mtime_of (files (yield w))) ns = map (mtime_of (files w)) ns"
    using same ns by (intro map_cong) (auto simp: mtime_of_def)
  with w0(1) g have "stat_all (n # ns) w = (Inr (map (mtime_of (files w)) (n # ns)), w0)"
    by (simp add: Let_def)
  moreover have "\<forall>n\<in>set es. map_of (files w0) n = map_of (files w) n" using w0(3) same by simp
  ultimately show ?case using w0(2,4) by auto
qed

lemma flush_undisturbed:
  assumes "undisturbed (select_events directory (map fst (files w))) w"
  shows "\<exists>w0. flush env endpoint directory port w =
             process env endpoint directory port
               (sort_key (mtime_of (files w)) (select_events directory (map fst (files w)))) w0 \<and>
           undisturbed (select_events directory (map fst (files w))) w0 \<and>
           (\<forall>n\<in>set (select_events directory (map fst (files w))). map_of (files w0) n = map_of (files w) n) \<and>
           trace w0 = trace w"
proof -
  let ?evs = "select_events directory (map fst (files w))"
  have "\<forall>n\<in>set ?evs. map_of (files w) n \<noteq> None"
    by (auto simp: select_events_def map_of_eq_None_iff)
  from stat_all_undisturbed[OF assms subset_refl this] obtain w0 where w0:
    "stat_all ?evs w = (Inr (map (mtime_of (files w)) ?evs), w0)" "undisturbed ?evs w0"
    "\<forall>n\<in>set ?evs. map_of (files w0) n = map_of (files w) n" "trace w0 = trace w"
    by blast
  from w0(1) have "flush env endpoint directory port w =
      process env endpoint directory port (sort_key (mtime_of (files w)) ?evs) w0"
    by (simp add: flush_def Let_def sort_key_zip)
  with w0(2,3,4) show ?thesis by blast
qed

lemma distinct_captured:
  "distinct (map fst d) \<Longrightarrow> distinct (sort_key f (select_events directory (map fst d)))"
  by (simp add: select_events_def)

text \<open>
  A flush during which other processes leave the listed event files alone: the loop runs
  over the listing sorted by modification time, from a world in which the listed files
  are as they were at the listing.
\<close>

lemma flush_undisturbed_run:
  assumes "undisturbed (select_events directory (map fst (files w))) w"
    and "distinct (map fst (files w))"
    and "flush env endpoint directory port w = (r, w')"
  shows "\<exists>new pre post. trace w' = trace w @ new \<and>
     sort_key (mtime_of (files w)) (select_events directory (map fst (files w))) = pre @ post \<and>
     posted new = filter (\<lambda>n. is_text (files w) n \<and> requested (reply env n)) pre \<and>
     (r = Inr () \<longrightarrow> post = [] \<and>
        opened new = sort_key (mtime_of (files w)) (select_events directory (map fst (files w)))) \<and>
     (\<forall>x. r = Inl x \<longrightarrow>
        x = UnicodeDecodeError \<and>
        (\<exists>g rest. post = g # rest \<and> \<not> is_text (files w) g \<and> opened new = pre @ [g]) \<or>
        (\<exists>pre0 g. pre = pre0 @ [g] \<and> is_text (files w) g \<and> raised (reply env g) = Some x \<and>
            opened new = pre)) \<and>
     set (opened new) \<subseteq> set (select_events directory (map fst (files w))) \<and>
     (\<forall>n\<in>set (select_events directory (map fst (files w))). map_of (files w') n =
        (if n \<in> set (unlinked new) then None else map_of (files w) n)) \<and>
     (\<forall>n\<in>set (opened new). \<forall>f s. map_of (files w) n = Some f \<and> body f = Text s \<longrightarrow>
        set (turn_effects directory n (event_url endpoint port) (universal_newlines s)
               (reply env n)) \<subseteq> set new) \<and>
     (\<forall>n u b. Post n u b \<in> set new \<longrightarrow>
        u = event_url endpoint port \<and>
        (\<exists>f s. map_of (files w) n = Some f \<and> body f = Text s \<and> b = universal_newlines s)) \<and>
     unlinked new = filter (\<lambda>n. is_text (files w) n \<and> deletes (reply env n)) (opened new) \<and>
     (\<forall>n\<in>set (opened new). \<forall>y. is_text (files w) n \<and> raised (reply env n) = Some y \<longrightarrow>
        r = Inl y)"
proof -
  let ?evs = "select_events directory (map fst (files w))"
  let ?es = "sort_key (mtime_of (files w)) ?evs"
  let ?url = "event_url endpoint port"
  let ?P = "\<lambda>w n. is_text (files w) n \<and> requested (reply env n)"
  let ?D = "\<lambda>w n. is_text (files w) n \<and> deletes (reply env n)"
  from flush_undisturbed[OF assms(1)] obtain w0 where w0:
    "flush env endpoint directory port w = process env endpoint directory port ?es w0"
    "undisturbed ?evs w0" "\<forall>n\<in>set ?evs. map_of (files w0) n = map_of (files w) n" "trace w0 = trace w"
    by blast
  have p: "process env endpoint directory port ?es w0 = (r, w')" using w0(1) assms(3) by simp
  have d: "distinct ?es" using assms(2) by (rule distinct_captured)
  have sub: "set ?es \<subseteq> set ?evs" by simp
  have same: "\<And>n. n \<in> set ?evs \<Longrightarrow> map_of (files w0) n = map_of (files w) n" using w0(3) by simp
  have tx: "\<And>n. n \<in> set ?evs \<Longrightarrow> is_text (files w0) n = is_text (files w) n"
    using same by (simp add: is_text_def)
  from process_undisturbed_posted[OF w0(2) sub d p] obtain new pre post where n:
    "trace w' = trace w0 @ new" "?es = pre @ post"
    "posted new = filter (?P w0) pre"
    "r = Inr () \<longrightarrow> post = [] \<and> opened new = ?es"
    "\<forall>x. r = Inl x \<longrightarrow>
              x = UnicodeDecodeError \<and>
              (\<exists>g rest. post = g # rest \<and> map_of (files w0) g \<noteq> None \<and> \<not> is_text (files w0) g \<and>
                  opened new = pre @ [g]) \<or>
              (\<exists>pre0 g. pre = pre0 @ [g] \<and> is_text (files w0) g \<and> raised (reply env g) = Some x \<and>
                  opened new = pre)"
    by (elim exE conjE) (rule that)
  from process_undisturbed_table[OF w0(2) sub d p] obtain new' where t:
    "trace w' = trace w0 @ new'" "set (opened new') \<subseteq> set ?es"
    "\<forall>n\<in>set ?evs. map_of (files w') n = (if n \<in> set (unlinked new') then None else map_of (files w0) n)"
    "\<forall>n\<in>set (opened new'). \<forall>f s. map_of (files w0) n = Some f \<and> body f = Text s \<longrightarrow>
              set (turn_effects directory n ?url (universal_newlines s) (reply env n)) \<subseteq> set new'"
    "\<forall>n u b. Post n u b \<in> set new' \<longrightarrow>
              n \<in> set ?es \<and> u = ?url \<and>
              (\<exists>f s. map_of (files w0) n = Some f \<and> body f = Text s \<and> b = universal_newlines s)"
    "unlinked new' = filter (?D w0) (opened new')"
    "\<forall>n\<in>set (opened new'). \<forall>y. is_text (files w0) n \<and> raised (reply env n) = Some y \<longrightarrow> r = Inl y"
    by (elim exE conjE) (rule that)
  have eq: "new' = new" using t(1) n(1) by simp
  have pre_sub: "set pre \<subseteq> set ?evs"
  proof -
    have "set pre \<subseteq> set (pre @ post)" by simp
    also have "\<dots> = set ?es" by (simp only: n(2))
    finally show ?thesis by simp
  qed
  have post_sub: "set post \<subseteq> set ?evs"
  proof -
    have "set post \<subseteq> set (pre @ post)" by simp
    also have "\<dots> = set ?es" by (simp only: n(2))
    finally show ?thesis by simp
  qed
  have op_sub: "set (opened new) \<subseteq> set ?evs" using t(2) unfolding eq by simp
  have a: "trace w' = trace w @ new" using n(1) w0(4) by simp
  have b: "posted new = filter (?P w) pre"
  proof -
    have "filter (?P w0) pre = filter (?P w) pre"
      using tx pre_sub by (intro filter_cong) auto
    with n(3) show ?thesis by simp
  qed
  have c: "\<forall>x. r = Inl x \<longrightarrow>
        x = UnicodeDecodeError \<and>
        (\<exists>g rest. post = g # rest \<and> \<not> is_text (files w) g \<and> opened new = pre @ [g]) \<or>
        (\<exists>pre0 g. pre = pre0 @ [g] \<and> is_text (files w) g \<and> raised (reply env g) = Some x \<and>
            opened new = pre)"
  proof (intro allI impI)
    fix x assume "r = Inl x"
    with n(5) consider
        (dec) g rest where "x = UnicodeDecodeError" "post = g # rest" "\<not> is_text (files w0) g"
          "opened new = pre @ [g]"
      | (rd) pre0 g where "pre = pre0 @ [g]" "is_text (files w0) g" "raised (reply env g) = Some x"
          "opened new = pre"
      by blast
    then show "x = UnicodeDecodeError \<and>
        (\<exists>g rest. post = g # rest \<and> \<not> is_text (files w) g \<and> opened new = pre @ [g]) \<or>
        (\<exists>pre0 g. pre = pre0 @ [g] \<and> is_text (files w) g \<and> raised (reply env g) = Some x \<and>
            opened new = pre)"
    proof cases
      case dec
      then have "g \<in> set ?evs" using post_sub by auto
      with tx dec show ?thesis by auto
    next
      case rd
      then have "g \<in> set ?evs" using pre_sub by auto
      with tx rd show ?thesis by auto
    qed
  qed
  have d1: "\<forall>n\<in>set ?evs. map_of (files w') n =
        (if n \<in> set (unlinked new) then None else map_of (files w) n)"
    using t(3) same unfolding eq by simp
  have d2: "\<forall>n\<in>set (opened new). \<forall>f s. map_of (files w) n = Some f \<and> body f = Text s \<longrightarrow>
        set (turn_effects directory n ?url (universal_newlines s) (reply env n)) \<subseteq> set new"
  proof (intro ballI allI impI)
    fix m f s assume m: "m \<in> set (opened new)" and fs: "map_of (files w) m = Some f \<and> body f = Text s"
    from m op_sub have "m \<in> set ?evs" by auto
    with fs same have "map_of (files w0) m = Some f \<and> body f = Text s" by simp
    with t(4) m show "set (turn_effects directory m ?url (universal_newlines s) (reply env m)) \<subseteq> set new"
      unfolding eq by blast
  qed
  have d3: "\<forall>n u b. Post n u b \<in> set new \<longrightarrow>
        u = ?url \<and> (\<exists>f s. map_of (files w) n = Some f \<and> body f = Text s \<and> b = universal_newlines s)"
  proof (intro allI impI)
    fix m u b assume pm: "Post m u b \<in> set new"
    with t(5) have me: "m \<in> set ?es" and u: "u = ?url"
      and ex: "\<exists>f s. map_of (files w0) m = Some f \<and> body f = Text s \<and> b = universal_newlines s"
      unfolding eq by blast+
    from me have "m \<in> set ?evs" by simp
    with ex same have "\<exists>f s. map_of (files w) m = Some f \<and> body f = Text s \<and> b = universal_newlines s"
      by simp
    with u show "u = ?url \<and>
        (\<exists>f s. map_of (files w) m = Some f \<and> body f = Text s \<and> b = universal_newlines s)"
      by simp
  qed
  have d4: "unlinked new = filter (?D w) (opened new)"
  proof -
    have "filter (?D w0) (opened new) = filter (?D w) (opened new)"
      using tx op_sub by (intro filter_cong) auto
    with t(6) show ?thesis unfolding eq by simp
  qed
  have d5: "\<forall>n\<in>set (opened new). \<forall>y. is_text (files w) n \<and> raised (reply env n) = Some y \<longrightarrow>
        r = Inl y"
  proof (intro ballI allI impI)
    fix m y assume m: "m \<in> set (opened new)" and my: "is_text (files w) m \<and> raised (reply env m) = Some y"
    from m op_sub have "m \<in> set ?evs" by auto
    with my tx have "is_text (files w0) m \<and> raised (reply env m) = Some y" by simp
    with t(7) m show "r = Inl y" unfolding eq by blast
  qed
  from a n(2) b n(4) c op_sub d1 d2 d3 d4 d5 show ?thesis
    by (intro exI[of _ new] exI[of _ pre] exI[of _ post] conjI)
qed

text \<open>One turn of the loop, and the whole loop, in a quiet world: what becomes of the directory.\<close>

lemma handle_event_quiet_files:
  assumes "racers w = []" and "handle_event env endpoint directory port e w = (r1, w1)"
  shows "racers w1 = [] \<and> (\<exists>new. trace w1 = trace w @ new \<and>
           (\<forall>n. map_of (files w1) n = (if n \<in> set (unlinked new) then None else map_of (files w) n)))"
proof (cases "map_of (files w) e")
  case None
  with assms have "w1 = emit (Open e) w" by (simp add: handle_event_quiet)
  with assms(1) show ?thesis by (intro conjI exI[of _ "[Open e]"]) simp_all
next
  case (Some f)
  show ?thesis
  proof (cases "body f")
    case Garbled
    with Some assms have "w1 = emit (Open e) w" by (simp add: handle_event_quiet)
    with assms(1) show ?thesis by (intro conjI exI[of _ "[Open e]"]) simp_all
  next
    case (Text s)
    let ?new = "turn_effects directory e (event_url endpoint port) (universal_newlines s) (reply env e)"
    from Text Some assms have w1: "w1 = w\<lparr>files := (if deletes (reply env e) then AList.delete e (files w)
          else files w), trace := trace w @ ?new\<rparr>"
      by (simp add: handle_event_quiet)
    have "racers w1 = []" using w1 assms(1) by simp
    moreover have "trace w1 = trace w @ ?new" using w1 by simp
    moreover have "\<forall>n. map_of (files w1) n =
        (if n \<in> set (unlinked ?new) then None else map_of (files w) n)"
      using w1 Some by (auto simp: turn_effects_lists delete_conv')
    ultimately show ?thesis by blast
  qed
qed

lemma process_quiet_files:
  assumes "racers w = []" and "process env endpoint directory port es w = (r, w')"
  shows "racers w' = [] \<and> (\<exists>new. trace w' = trace w @ new \<and>
           (\<forall>n. map_of (files w') n = (if n \<in> set (unlinked new) then None else map_of (files w) n)))"
  using assms
proof (induction es arbitrary: w)
  case Nil
  then show ?case by auto
next
  case (Cons e es)
  obtain r1 w1 where h: "handle_event env endpoint directory port e w = (r1, w1)"
    by (cases "handle_event env endpoint directory port e w")
  from handle_event_quiet_files[OF Cons.prems(1) h] obtain new1 where n1:
    "racers w1 = []" "trace w1 = trace w @ new1"
    "\<forall>n. map_of (files w1) n = (if n \<in> set (unlinked new1) then None else map_of (files w) n)"
    by (elim exE conjE) (rule that)
  show ?case
  proof (cases r1)
    case (Inl x)
    with h Cons.prems(2) have "w' = w1" by simp
    with n1 show ?thesis by blast
  next
    case (Inr u)
    with h Cons.prems(2) have p: "process env endpoint directory port es w1 = (r, w')" by simp
    from Cons.IH[OF n1(1) p] obtain new where n:
      "racers w' = []" "trace w' = trace w1 @ new"
      "\<forall>n. map_of (files w') n = (if n \<in> set (unlinked new) then None else map_of (files w1) n)"
      by (elim exE conjE) (rule that)
    have "trace w' = trace w @ (new1 @ new)" using n(2) n1(2) by simp
    moreover have "\<forall>n. map_of (files w') n =
        (if n \<in> set (unlinked (new1 @ new)) then None else map_of (files w) n)"
      using n(3) n1(3) by auto
    ultimately show ?thesis using n(1) by blast
  qed
qed

text \<open>
  C3, as the code has it. Whatever other processes do to the directory meanwhile: if flush
  returns, it has opened every file of its captured listing, once each, whatever the
  outcome of each request and whichever files could not be opened. If flush raises, then
  either a modification-time lookup failed before the loop and nothing was attempted; or
  the loop stopped at the last file it opened, and then either the exception is the
  decoding error of that file's contents, or that file was the last one posted and
  \<^verbatim>\<open>os.remove\<close> was called for it or the body of its error response could not be
  read. So no failure to open or read a file with an I/O error, and no outcome of a
  request whose handling runs to its end without \<^verbatim>\<open>os.remove\<close>, ends the loop.
\<close>

theorem flush_attempts_every_event:
  assumes "flush env endpoint directory port w = (r, w')"
  shows "\<exists>new. trace w' = trace w @ new \<and>
     (case r of
        Inr u \<Rightarrow>
          set (opened new) = set (select_events directory (map fst (files w))) \<and>
          length (opened new) = length (select_events directory (map fst (files w)))
      | Inl x \<Rightarrow>
          x = OSError \<and> new = [] \<or>
          (\<exists>pre e. opened new = pre @ [e] \<and>
             (x = UnicodeDecodeError \<or>
              posted new \<noteq> [] \<and> last (posted new) = e \<and>
                (x = OSError \<and> deletes (reply env e) \<or> raised (reply env e) = Some x))))"
proof -
  from flush_trace[OF assms] obtain new where n: "trace w' = trace w @ new"
    "r = Inr () \<longrightarrow> set (opened new) = set (select_events directory (map fst (files w))) \<and>
              length (opened new) = length (select_events directory (map fst (files w)))"
    "\<forall>x. r = Inl x \<longrightarrow>
              x = OSError \<and> new = [] \<or>
              (\<exists>pre e. opened new = pre @ [e] \<and>
                 (x = UnicodeDecodeError \<or>
                  posted new \<noteq> [] \<and> last (posted new) = e \<and>
                    (x = OSError \<and> deletes (reply env e) \<or> raised (reply env e) = Some x)))"
    by (elim exE conjE) (rule that)
  show ?thesis
  proof (cases r)
    case (Inr u)
    with n(1,2) show ?thesis by (intro exI[of _ new]) simp
  next
    case (Inl x)
    with n(3) have "x = OSError \<and> new = [] \<or>
          (\<exists>pre e. opened new = pre @ [e] \<and>
             (x = UnicodeDecodeError \<or>
              posted new \<noteq> [] \<and> last (posted new) = e \<and>
                (x = OSError \<and> deletes (reply env e) \<or> raised (reply env e) = Some x)))"
      by simp
    with Inl n(1) show ?thesis by (intro exI[of _ new]) simp
  qed
qed

theorem flush_attempts_every_event_witness:
  "flush demo_env ''https://api.ilert.com'' ''/tmp/ilert-icinga'' 443 demo_world = (Inr (), demo_after) \<and>
   opened (trace demo_after) = [''a.ilert'', ''b.ilert'', ''c.ilert'', ''d.ilert''] \<and>
   (\<exists>new. trace demo_after = trace demo_world @ new \<and>
      set (opened new) = set (select_events ''/tmp/ilert-icinga'' (map fst (files demo_world))) \<and>
      length (opened new) = length (select_events ''/tmp/ilert-icinga'' (map fst (files demo_world))))"
proof -
  have h: "flush demo_env ''https://api.ilert.com'' ''/tmp/ilert-icinga'' 443 demo_world = (Inr (), demo_after)"
    by code_simp
  have o: "opened (trace demo_after) = [''a.ilert'', ''b.ilert'', ''c.ilert'', ''d.ilert'']"
    by (simp add: demo_after_def)
  from flush_attempts_every_event[OF h] h o show ?thesis by simp
qed

text \<open>
  C3 as stated fails. In \<open>garbled_batch_world\<close> the listing holds \<open>a\<close>, \<open>b\<close> and
  \<open>c\<close>, and the contents of \<open>b\<close> are not UTF-8. Flush sends \<open>a\<close>; reading \<open>b\<close>
  raises \<^verbatim>\<open>UnicodeDecodeError\<close>, which \<^verbatim>\<open>except IOError\<close> does not catch; and flush
  ends without ever opening \<open>c\<close>.
\<close>

theorem flush_batch_abort_counterexample:
  "fst (flush accept_env ''https://api.ilert.com'' ''/tmp/ilert-icinga'' 443 garbled_batch_world)
     = Inl UnicodeDecodeError \<and>
   ''c.ilert'' \<in> set (select_events ''/tmp/ilert-icinga'' (map fst (files garbled_batch_world))) \<and>
   opened (trace (snd (flush accept_env ''https://api.ilert.com'' ''/tmp/ilert-icinga'' 443
        garbled_batch_world))) = [''a.ilert'', ''b.ilert''] \<and>
   posted (trace (snd (flush accept_env ''https://api.ilert.com'' ''/tmp/ilert-icinga'' 443
        garbled_batch_world))) = [''a.ilert'']"
  by code_simp

text \<open>
  C10. Whatever other processes do meanwhile, every file that flush opens, posts or
  deletes is an entry of the listing whose name ends with \<^verbatim>\<open>.ilert\<close>. When no other
  process touches the directory, every entry after flush is as it was before, except the
  \<^verbatim>\<open>.ilert\<close> files flush has deleted; so the lock file and every file with the
  temporary suffix are as they were.
\<close>

theorem flush_touches_only_event_files:
  assumes "flush env endpoint directory port w = (r, w')"
  shows "\<exists>new. trace w' = trace w @ new \<and>
     (\<forall>n\<in>set (opened new) \<union> set (posted new) \<union> set (unlinked new).
        n \<in> fst ` set (files w) \<and> endswith n ''.ilert'') \<and>
     (racers w = [] \<longrightarrow>
        (\<forall>n. map_of (files w') n = map_of (files w) n \<or>
             endswith n ''.ilert'' \<and> n \<in> set (unlinked new) \<and> map_of (files w') n = None) \<and>
        map_of (files w') ''lockfile'' = map_of (files w) ''lockfile'' \<and>
        (\<forall>uid. map_of (files w') (uid @ ''.tmp'') = map_of (files w) (uid @ ''.tmp'')))"
proof -
  let ?evs = "select_events directory (map fst (files w))"
  from flush_trace[OF assms] obtain new where n: "trace w' = trace w @ new"
    "set (opened new) \<subseteq> set ?evs" "set (posted new) \<subseteq> set ?evs"
    "set (unlinked new) \<subseteq> {n \<in> set (posted new). deletes (reply env n)}"
    by blast
  have sel: "set ?evs = {n \<in> fst ` set (files w). endswith n ''.ilert''}"
    by (auto simp: select_events_eq)
  have touched: "\<forall>n\<in>set (opened new) \<union> set (posted new) \<union> set (unlinked new).
        n \<in> fst ` set (files w) \<and> endswith n ''.ilert''"
    using n(2,3,4) sel by blast
  have frame: "(\<forall>n. map_of (files w') n = map_of (files w) n \<or>
             endswith n ''.ilert'' \<and> n \<in> set (unlinked new) \<and> map_of (files w') n = None) \<and>
        map_of (files w') ''lockfile'' = map_of (files w) ''lockfile'' \<and>
        (\<forall>uid. map_of (files w') (uid @ ''.tmp'') = map_of (files w) (uid @ ''.tmp''))"
    if q: "racers w = []"
  proof -
    have p: "process env endpoint directory port (sort_key (mtime_of (files w)) ?evs) w = (r, w')"
      using flush_quiet[OF q] assms by simp
    from process_quiet_files[OF q p] obtain new1 where n1: "trace w' = trace w @ new1"
      "\<forall>n. map_of (files w') n = (if n \<in> set (unlinked new1) then None else map_of (files w) n)"
      by blast
    have eq: "new1 = new" using n1(1) n(1) by simp
    have ev: "\<And>n. n \<in> set (unlinked new) \<Longrightarrow> endswith n ''.ilert''" using touched by blast
    have a: "\<forall>n. map_of (files w') n = map_of (files w) n \<or>
             endswith n ''.ilert'' \<and> n \<in> set (unlinked new) \<and> map_of (files w') n = None"
      using n1(2) ev unfolding eq by auto
    have b: "map_of (files w') ''lockfile'' = map_of (files w) ''lockfile''"
      using a lockfile_not_event by blast
    have c: "\<forall>uid. map_of (files w') (uid @ ''.tmp'') = map_of (files w) (uid @ ''.tmp'')"
      using a tmp_not_event by blast
    from a b c show ?thesis by blast
  qed
  from n(1) touched frame show ?thesis by blast
qed

theorem flush_touches_only_event_files_witness:
  "flush demo_env ''https://api.ilert.com'' ''/tmp/ilert-icinga'' 443 demo_world = (Inr (), demo_after) \<and>
   racers demo_world = [] \<and>
   map_of (files demo_after) ''lockfile'' = Some \<lparr>mtime = 0, body = Text []\<rparr> \<and>
   map_of (files demo_after) ''u9.tmp'' = Some \<lparr>mtime = 25, body = Text ''<?x''\<rparr> \<and>
   (\<exists>new. trace demo_after = trace demo_world @ new \<and>
     (\<forall>n\<in>set (opened new) \<union> set (posted new) \<union> set (unlinked new).
        n \<in> fst ` set (files demo_world) \<and> endswith n ''.ilert'') \<and>
     (\<forall>n. map_of (files demo_after) n = map_of (files demo_world) n \<or>
             endswith n ''.ilert'' \<and> n \<in> set (unlinked new) \<and> map_of (files demo_after) n = None) \<and>
        map_of (files demo_after) ''lockfile'' = map_of (files demo_world) ''lockfile'' \<and>
        (\<forall>uid. map_of (files demo_after) (uid @ ''.tmp'') = map_of (files demo_world) (uid @ ''.tmp'')))"
proof -
  have h: "flush demo_env ''https://api.ilert.com'' ''/tmp/ilert-icinga'' 443 demo_world = (Inr (), demo_after)"
    by code_simp
  have q: "racers demo_world = []" by (simp add: demo_world_def)
  have l: "map_of (files demo_after) ''lockfile'' = Some \<lparr>mtime = 0, body = Text []\<rparr>"
    "map_of (files demo_after) ''u9.tmp'' = Some \<lparr>mtime = 25, body = Text ''<?x''\<rparr>"
    by (simp_all add: demo_after_def)
  from flush_touches_only_event_files[OF h] q have
    "\<exists>new. trace demo_after = trace demo_world @ new \<and>
     (\<forall>n\<in>set (opened new) \<union> set (posted new) \<union> set (unlinked new).
        n \<in> fst ` set (files demo_world) \<and> endswith n ''.ilert'') \<and>
     (\<forall>n. map_of (files demo_after) n = map_of (files demo_world) n \<or>
             endswith n ''.ilert'' \<and> n \<in> set (unlinked new) \<and> map_of (files demo_after) n = None) \<and>
        map_of (files demo_after) ''lockfile'' = map_of (files demo_world) ''lockfile'' \<and>
        (\<forall>uid. map_of (files demo_after) (uid @ ''.tmp'') = map_of (files demo_world) (uid @ ''.tmp''))"
    by simp
  with h q l show ?thesis by (intro conjI)
qed

text \<open>
  C6, as the code has it. Let flush have sorted its listing and worked through the events
  before \<open>event\<close> without an exception. If opening or reading \<open>event\<close> then fails with
  an I/O error (\<^verbatim>\<open>IOError\<close>, for instance because another process has removed the
  file), flush records nothing but the attempt and goes on with the events after it:
  the result of flush is the result of the loop over the rest.
\<close>

theorem flush_skips_unreadable_event:
  assumes "stat_all (select_events directory (map fst (files w))) w = (Inr keys, w0)"
    and "map snd (sort_key fst (zip keys (select_events directory (map fst (files w))))) = pre @ event # rest"
    and "process env endpoint directory port pre w0 = (Inr (), w1)"
    and "read_text event (yield w1) = Inl OSError"
  shows "flush env endpoint directory port w =
           process env endpoint directory port rest (emit (Open event) (yield w1)) \<and>
         files (emit (Open event) (yield w1)) = files (yield w1) \<and>
         trace (emit (Open event) (yield w1)) = trace w1 @ [Open event]"
proof -
  have rd: "read_text event (emit (Open event) (yield w1)) = Inl OSError"
    using assms(4) by (simp add: read_text_def)
  have "handle_event env endpoint directory port event w1 = (Inr (), emit (Open event) (yield w1))"
    using rd by (simp add: handle_event_def Let_def)
  then have "process env endpoint directory port (event # rest) w1 =
      process env endpoint directory port rest (emit (Open event) (yield w1))"
    by simp
  then have "process env endpoint directory port (pre @ event # rest) w0 =
      process env endpoint directory port rest (emit (Open event) (yield w1))"
    using assms(3) by (simp add: process_append)
  then show ?thesis
    using assms(1,2) by (simp add: flush_def Let_def)
qed

theorem flush_skips_unreadable_event_witness:
  "read_text ''b.ilert''
     (yield (snd (process accept_env ''https://api.ilert.com'' ''/tmp/ilert-icinga'' 443 [''a.ilert'']
        (vanish_world\<lparr>racers := [[], [], [ExtRemove ''b.ilert'']]\<rparr>)))) = Inl OSError \<and>
   flush accept_env ''https://api.ilert.com'' ''/tmp/ilert-icinga'' 443 vanish_world =
     process accept_env ''https://api.ilert.com'' ''/tmp/ilert-icinga'' 443 [''c.ilert'']
       (emit (Open ''b.ilert'')
         (yield (snd (process accept_env ''https://api.ilert.com'' ''/tmp/ilert-icinga'' 443 [''a.ilert'']
            (vanish_world\<lparr>racers := [[], [], [ExtRemove ''b.ilert'']]\<rparr>))))) \<and>
   fst (flush accept_env ''https://api.ilert.com'' ''/tmp/ilert-icinga'' 443 vanish_world) = Inr () \<and>
   opened (trace (snd (flush accept_env ''https://api.ilert.com'' ''/tmp/ilert-icinga'' 443 vanish_world)))
     = [''a.ilert'', ''b.ilert'', ''c.ilert''] \<and>
   posted (trace (snd (flush accept_env ''https://api.ilert.com'' ''/tmp/ilert-icinga'' 443 vanish_world)))
     = [''a.ilert'', ''c.ilert'']"
proof -
  let ?w0 = "vanish_world\<lparr>racers := [[], [], [ExtRemove ''b.ilert'']]\<rparr>"
  let ?p = "process accept_env ''https://api.ilert.com'' ''/tmp/ilert-icinga'' 443 [''a.ilert''] ?w0"
  have h1: "stat_all (select_events ''/tmp/ilert-icinga'' (map fst (files vanish_world))) vanish_world
      = (Inr [10, 20, 30], ?w0)"
    by code_simp
  have h2: "map snd (sort_key fst (zip [10, 20, 30 :: int]
      (select_events ''/tmp/ilert-icinga'' (map fst (files vanish_world))))) = [''a.ilert''] @ ''b.ilert'' # [''c.ilert'']"
    by code_simp
  have h3: "?p = (Inr (), snd ?p)"
    by code_simp
  have h4: "read_text ''b.ilert'' (yield (snd ?p)) = Inl OSError"
    by code_simp
  have r: "fst (flush accept_env ''https://api.ilert.com'' ''/tmp/ilert-icinga'' 443 vanish_world) = Inr ()"
    "opened (trace (snd (flush accept_env ''https://api.ilert.com'' ''/tmp/ilert-icinga'' 443 vanish_world)))
     = [''a.ilert'', ''b.ilert'', ''c.ilert'']"
    "posted (trace (snd (flush accept_env ''https://api.ilert.com'' ''/tmp/ilert-icinga'' 443 vanish_world)))
     = [''a.ilert'', ''c.ilert'']"
    by code_simp+
  from flush_skips_unreadable_event[OF h1 h2 h3 h4] h4 r show ?thesis by (intro conjI) simp_all
qed

text \<open>
  C6 as stated fails for a read that fails otherwise than with an I/O error. In
  \<open>garbled_world\<close> the contents of \<open>a\<close> are not UTF-8: \<^verbatim>\<open>f.read()\<close> raises
  \<^verbatim>\<open>UnicodeDecodeError\<close>, which \<^verbatim>\<open>except IOError\<close> does not catch, and flush
  ends without going on to \<open>b\<close>.
\<close>

theorem flush_read_failure_counterexample:
  "read_text ''a.ilert'' garbled_world = Inl UnicodeDecodeError \<and>
   fst (flush accept_env ''https://api.ilert.com'' ''/tmp/ilert-icinga'' 443 garbled_world)
     = Inl UnicodeDecodeError \<and>
   ''b.ilert'' \<in> set (select_events ''/tmp/ilert-icinga'' (map fst (files garbled_world))) \<and>
   opened (trace (snd (flush accept_env ''https://api.ilert.com'' ''/tmp/ilert-icinga'' 443 garbled_world)))
     = [''a.ilert'']"
  by code_simp

lemma fold_apply_ext_absent:
  "(\<forall>f. ExtPut e f \<notin> set slot) \<Longrightarrow> map_of d e = None \<Longrightarrow> map_of (fold apply_ext slot d) e = None"
proof (induction slot arbitrary: d)
  case Nil
  then show ?case by simp
next
  case (Cons a slot)
  have "map_of (apply_ext a d) e = None"
    using Cons.prems by (cases a) (auto simp: delete_conv' update_conv')
  with Cons show ?case by simp
qed

lemma fold_apply_ext_removed:
  "ExtRemove e \<in> set slot \<Longrightarrow> (\<forall>f. ExtPut e f \<notin> set slot) \<Longrightarrow> map_of (fold apply_ext slot d) e = None"
proof (induction slot arbitrary: d)
  case Nil
  then show ?case by simp
next
  case (Cons a slot)
  show ?case
  proof (cases "a = ExtRemove e")
    case True
    have "map_of (apply_ext a d) e = None" using True by (simp add: delete_conv')
    with Cons.prems(2) show ?thesis by (simp add: fold_apply_ext_absent)
  next
    case False
    with Cons show ?thesis by simp
  qed
qed

lemma getmtime_raises: "getmtime n w = Inl x \<Longrightarrow> x = OSError"
  by (auto simp: getmtime_def split: option.splits)

lemma yield_absent:
  assumes "map_of (files w) e = None" and "\<forall>s\<in>set (racers w). \<forall>f. ExtPut e f \<notin> set s"
  shows "map_of (files (yield w)) e = None \<and> (\<forall>s\<in>set (racers (yield w)). \<forall>f. ExtPut e f \<notin> set s)"
  using assms by (cases "racers w") (auto simp: yield_def fold_apply_ext_absent)

lemma stat_all_absent:
  assumes "map_of (files w) e = None" and "\<forall>s\<in>set (racers w). \<forall>f. ExtPut e f \<notin> set s"
    and "e \<in> set ns"
  shows "fst (stat_all ns w) = Inl OSError"
  using assms
proof (induction ns arbitrary: w)
  case Nil
  then show ?case by simp
next
  case (Cons n ns)
  note y = yield_absent[OF Cons.prems(1,2)]
  show ?case
  proof (cases "getmtime n (yield w)")
    case (Inl x)
    then show ?thesis by (simp add: Let_def getmtime_raises)
  next
    case (Inr t)
    with y have "n \<noteq> e" by (auto simp: getmtime_def)
    with Cons.prems(3) have "e \<in> set ns" by simp
    from Cons.IH[OF _ _ this] y have "fst (stat_all ns (yield w)) = Inl OSError" by blast
    with Inr show ?thesis
      by (cases "stat_all ns (yield w)") (auto simp: Let_def split: sum.splits)
  qed
qed

lemma stat_all_vanished:
  assumes "i < length ns" and "k \<le> i" and "k < length (racers w)"
    and "ExtRemove (ns ! i) \<in> set (racers w ! k)"
    and "\<forall>s\<in>set (racers w). \<forall>f. ExtPut (ns ! i) f \<notin> set s"
  shows "fst (stat_all ns w) = Inl OSError"
  using assms
proof (induction ns arbitrary: i k w)
  case Nil
  then show ?case by simp
next
  case (Cons n ns)
  let ?e = "(n # ns) ! i"
  from Cons.prems(3) obtain slot rest where rs: "racers w = slot # rest" by (cases "racers w") auto
  have yw: "files (yield w) = fold apply_ext slot (files w)" "racers (yield w) = rest"
    using rs by (simp_all add: yield_def)
  have noput: "\<forall>s\<in>set rest. \<forall>f. ExtPut ?e f \<notin> set s" "\<forall>f. ExtPut ?e f \<notin> set slot"
    using Cons.prems(5) rs by auto
  show ?case
  proof (cases "getmtime n (yield w)")
    case (Inl x)
    then show ?thesis by (simp add: Let_def getmtime_raises)
  next
    case (Inr t)
    have "fst (stat_all ns (yield w)) = Inl OSError"
    proof (cases k)
      case 0
      with Cons.prems(4) rs have "ExtRemove ?e \<in> set slot" by simp
      then have gone: "map_of (files (yield w)) ?e = None"
        using noput(2) yw(1) by (simp add: fold_apply_ext_removed)
      with Inr have "?e \<noteq> n" by (auto simp: getmtime_def)
      then have "i \<noteq> 0" by (cases i) auto
      then have "?e \<in> set ns" using Cons.prems(1) by (cases i) auto
      from stat_all_absent[OF gone _ this] noput(1) yw(2) show ?thesis by simp
    next
      case (Suc k')
      with Cons.prems(2) obtain i' where i': "i = Suc i'" by (cases i) auto
      have "i' < length ns" "k' \<le> i'" "k' < length (racers (yield w))"
        "ExtRemove (ns ! i') \<in> set (racers (yield w) ! k')"
        "\<forall>s\<in>set (racers (yield w)). \<forall>f. ExtPut (ns ! i') f \<notin> set s"
        using Cons.prems i' Suc rs yw noput by auto
      then show ?thesis by (rule Cons.IH)
    qed
    with Inr show ?thesis
      by (cases "stat_all ns (yield w)") (auto simp: Let_def split: sum.splits)
  qed
qed

text \<open>
  C9. The handler that skips a file covers only the opening and reading of an event
  inside the loop. If another process removes a listed file with the permanent suffix
  after the listing and no later than the moment \<^verbatim>\<open>sorted\<close> looks up its modification
  time, and nobody puts it back, then \<^verbatim>\<open>os.path.getmtime\<close> raises, nothing catches
  the exception, and flush ends with it before it has opened, posted or deleted any event.
\<close>

theorem flush_aborts_when_listed_event_vanishes:
  assumes "i < length (select_events directory (map fst (files w)))" and "k \<le> i"
    and "k < length (racers w)"
    and "ExtRemove (select_events directory (map fst (files w)) ! i) \<in> set (racers w ! k)"
    and "\<forall>s\<in>set (racers w). \<forall>f. ExtPut (select_events directory (map fst (files w)) ! i) f \<notin> set s"
  shows "fst (flush env endpoint directory port w) = Inl OSError \<and>
         trace (snd (flush env endpoint directory port w)) = trace w"
proof -
  let ?evs = "select_events directory (map fst (files w))"
  obtain r1 w1 where s: "stat_all ?evs w = (r1, w1)" by (cases "stat_all ?evs w")
  from stat_all_vanished[OF assms] s have r1: "r1 = Inl OSError" by simp
  from stat_all_fields[OF s] have "trace w1 = trace w" by simp
  with s r1 show ?thesis by (simp add: flush_def Let_def)
qed

theorem flush_aborts_when_listed_event_vanishes_witness:
  "select_events ''/tmp/ilert-icinga'' (map fst (files early_vanish_world)) = [''a.ilert'', ''b.ilert''] \<and>
   racers early_vanish_world ! 0 = [ExtRemove ''b.ilert''] \<and>
   fst (flush accept_env ''https://api.ilert.com'' ''/tmp/ilert-icinga'' 443 early_vanish_world) = Inl OSError \<and>
   trace (snd (flush accept_env ''https://api.ilert.com'' ''/tmp/ilert-icinga'' 443 early_vanish_world)) = [] \<and>
   map fst (files (snd (flush accept_env ''https://api.ilert.com'' ''/tmp/ilert-icinga'' 443 early_vanish_world)))
     = [''a.ilert'']"
proof -
  have sel: "select_events ''/tmp/ilert-icinga'' (map fst (files early_vanish_world)) = [''a.ilert'', ''b.ilert'']"
    by code_simp
  have rc: "racers early_vanish_world = [[ExtRemove ''b.ilert'']]" "trace early_vanish_world = []"
    by (simp_all add: early_vanish_world_def)
  have h1: "1 < length (select_events ''/tmp/ilert-icinga'' (map fst (files early_vanish_world)))"
    and h2: "(0::nat) \<le> 1" and h3: "0 < length (racers early_vanish_world)"
    and h4: "ExtRemove (select_events ''/tmp/ilert-icinga'' (map fst (files early_vanish_world)) ! 1)
               \<in> set (racers early_vanish_world ! 0)"
    and h5: "\<forall>s\<in>set (racers early_vanish_world).
               \<forall>f. ExtPut (select_events ''/tmp/ilert-icinga'' (map fst (files early_vanish_world)) ! 1) f \<notin> set s"
    by (simp_all add: sel rc)
  have left: "map fst (files (snd (flush accept_env ''https://api.ilert.com'' ''/tmp/ilert-icinga'' 443
      early_vanish_world))) = [''a.ilert'']"
    by code_simp
  from flush_aborts_when_listed_event_vanishes[OF h1 h2 h3 h4 h5, of accept_env "''https://api.ilert.com''" 443]
    sel rc left
  show ?thesis by simp
qed

text \<open>
  C5. \<^verbatim>\<open>lock_and_flush\<close>, called by a process that does not hold the lock, never leaves
  the lock held or the lock file open, however it ends. When the lock file opens and the
  lock is taken, flush runs with the lock held, holds it to its end, and the result of
  flush, a return or an exception, is the result of \<^verbatim>\<open>lock_and_flush\<close>, after the
  \<^verbatim>\<open>finally\<close> clause has closed the file.
\<close>

theorem lock_released_on_every_exit:
  assumes "\<not> lock_held w" and "\<not> lock_open w"
    and "lock_and_flush env endpoint directory port w = (r, w')"
  shows "\<not> lock_held w' \<and> \<not> lock_open w' \<and>
     (\<not> open_lock_fails env \<and> \<not> flock_fails env \<longrightarrow>
        (\<exists>w2. flush env endpoint directory port
                 ((write_file ''lockfile'' \<lparr>mtime = clock env, body = Text []\<rparr> w)
                    \<lparr>lock_open := True, lock_held := True\<rparr>) = (r, w2) \<and>
              lock_held w2 \<and> lock_open w2 \<and> w' = close_lock w2))"
proof (cases "open_lock_fails env")
  case True
  with assms show ?thesis by (simp add: lock_and_flush_def)
next
  case opened: False
  let ?w1 = "(write_file ''lockfile'' \<lparr>mtime = clock env, body = Text []\<rparr> w)\<lparr>lock_open := True\<rparr>"
  show ?thesis
  proof (cases "flock_fails env")
    case True
    with opened assms(3) have "w' = close_lock ?w1" by (simp add: lock_and_flush_def Let_def)
    with True show ?thesis by (simp add: close_lock_def)
  next
    case False
    obtain r2 w2 where f: "flush env endpoint directory port (?w1\<lparr>lock_held := True\<rparr>) = (r2, w2)"
      by (cases "flush env endpoint directory port (?w1\<lparr>lock_held := True\<rparr>)")
    from flush_trace[OF f] have held: "lock_held w2" "lock_open w2" by auto
    from f opened False assms(3) have "r = r2" "w' = close_lock w2"
      by (simp_all add: lock_and_flush_def Let_def)
    with f held show ?thesis by (auto simp: close_lock_def)
  qed
qed

theorem lock_released_on_every_exit_witness:
  "fst (lock_and_flush accept_env ''https://api.ilert.com'' ''/tmp/ilert-icinga'' 443 garbled_world)
     = Inl UnicodeDecodeError \<and>
   \<not> lock_held (snd (lock_and_flush accept_env ''https://api.ilert.com'' ''/tmp/ilert-icinga'' 443 garbled_world)) \<and>
   \<not> lock_open (snd (lock_and_flush accept_env ''https://api.ilert.com'' ''/tmp/ilert-icinga'' 443 garbled_world)) \<and>
   fst (lock_and_flush demo_env ''https://api.ilert.com'' ''/tmp/ilert-icinga'' 443 demo_world) = Inr () \<and>
   \<not> lock_held (snd (lock_and_flush demo_env ''https://api.ilert.com'' ''/tmp/ilert-icinga'' 443 demo_world)) \<and>
   \<not> lock_open (snd (lock_and_flush demo_env ''https://api.ilert.com'' ''/tmp/ilert-icinga'' 443 demo_world))"
proof -
  let ?g = "lock_and_flush accept_env ''https://api.ilert.com'' ''/tmp/ilert-icinga'' 443 garbled_world"
  let ?d = "lock_and_flush demo_env ''https://api.ilert.com'' ''/tmp/ilert-icinga'' 443 demo_world"
  have g: "\<not> lock_held garbled_world" "\<not> lock_open garbled_world" "?g = (fst ?g, snd ?g)"
    by (simp_all add: garbled_world_def)
  have d: "\<not> lock_held demo_world" "\<not> lock_open demo_world" "?d = (fst ?d, snd ?d)"
    by (simp_all add: demo_world_def)
  have r: "fst ?g = Inl UnicodeDecodeError" "fst ?d = Inr ()" by code_simp+
  from lock_released_on_every_exit[OF g] lock_released_on_every_exit[OF d] r
  show ?thesis by simp
qed

lemma outcome_effects_row:
  "set (outcome_effects directory n r) \<subseteq> S \<Longrightarrow>
   (case r of
      NotRequested \<Rightarrow> Log ERROR UnexpectedError \<in> S
    | Delivered \<Rightarrow> Log INFO (SentAndRemoved (path_join directory n)) \<in> S
    | HTTPError code body_read \<Rightarrow>
        (case body_read of
           Some x \<Rightarrow> True
         | None \<Rightarrow>
             if code = 429 then Log WARN TooManyRequests \<in> S
             else if 400 \<le> code \<and> code \<le> 499 then Log WARN NotAccepted \<in> S
             else Stderr (HttpFailure code) \<in> S)
    | URLError \<Rightarrow> Log ERROR SendFailed \<in> S
    | OtherError \<Rightarrow> Log ERROR UnexpectedError \<in> S)"
  by (auto simp: outcome_effects_def split: outcome.splits option.splits)

lemma deletes_iff:
  "deletes r \<longleftrightarrow> r = Delivered \<or>
     (\<exists>code. r = HTTPError code None \<and> 400 \<le> code \<and> code \<le> 499 \<and> code \<noteq> 429)"
  by (auto simp: deletes_def split: outcome.splits option.splits)

lemma outcome_effects_in_turn:
  "set (outcome_effects directory n r) \<subseteq> set (turn_effects directory n url s r)"
  by (auto simp: turn_effects_def)

text \<open>
  C1 fails on the code. The server answers 404 for \<open>b\<close>, and the body of that response is
  cut short. The handler of \<^verbatim>\<open>HTTPError\<close> evaluates \<^verbatim>\<open>e.read()\<close> to build the warning
  before it logs and before it calls \<^verbatim>\<open>os.remove\<close>; the call raises
  \<^verbatim>\<open>IncompleteRead\<close>, which nothing catches. So for a status from 400 to 499 other than
  429 the file is kept and no warning is logged, and flush ends without opening \<open>c\<close>.
\<close>

theorem flush_keeps_rejected_event_when_body_read_fails:
  "reply cut_short_env ''b.ilert'' = HTTPError 404 (Some IncompleteRead) \<and>
   fst (flush cut_short_env ''https://api.ilert.com'' ''/tmp/ilert-icinga'' 443 three_world)
     = Inl IncompleteRead \<and>
   posted (trace (snd (flush cut_short_env ''https://api.ilert.com'' ''/tmp/ilert-icinga'' 443
     three_world))) = [''a.ilert'', ''b.ilert''] \<and>
   map_of (files (snd (flush cut_short_env ''https://api.ilert.com'' ''/tmp/ilert-icinga'' 443
     three_world))) ''b.ilert'' = Some \<lparr>mtime = 20, body = Text ''B''\<rparr> \<and>
   Log WARN NotAccepted \<notin> set (trace (snd (flush cut_short_env ''https://api.ilert.com''
     ''/tmp/ilert-icinga'' 443 three_world))) \<and>
   unlinked (trace (snd (flush cut_short_env ''https://api.ilert.com'' ''/tmp/ilert-icinga'' 443
     three_world))) = [''a.ilert''] \<and>
   opened (trace (snd (flush cut_short_env ''https://api.ilert.com'' ''/tmp/ilert-icinga'' 443
     three_world))) = [''a.ilert'', ''b.ilert'']"
  by code_simp

text \<open>
  X2. What does hold of the table of dispositions (compare C1). Whatever other processes
  do meanwhile, flush deletes a file only after it has posted it and the request was
  delivered (2xx) or answered with a status from 400 to 499 other than 429 whose body it
  could read. When other processes leave the listed event files alone (they may add,
  change and remove other entries, as a concurrent \<^verbatim>\<open>persist_event\<close> does), every event
  file that flush has opened and read is disposed of as follows. The request could not be
  built: the file is kept and an error logged. Delivered: the file is deleted and the
  removal logged at level INFO. \<^verbatim>\<open>HTTPError\<close> whose body cannot be read: the file is
  kept and flush ends with the exception of the read. \<^verbatim>\<open>HTTPError\<close> whose body is read:
  status 429, the file is kept and a warning logged; any other status from 400 to 499,
  the file is deleted and a warning logged; any other status, the file is kept and the
  failure written to the error stream. \<^verbatim>\<open>URLError\<close> or any other exception: the file is
  kept and an error logged. And every listed event file that is gone after the pass was
  posted and met a delivery or a status from 400 to 499 other than 429.
\<close>

theorem flush_outcome_table:
  assumes "flush env endpoint directory port w = (r, w')"
  shows "\<exists>new. trace w' = trace w @ new \<and>
     (\<forall>n\<in>set (unlinked new). n \<in> set (posted new) \<and>
        (reply env n = Delivered \<or>
         (\<exists>code. reply env n = HTTPError code None \<and> 400 \<le> code \<and> code \<le> 499 \<and> code \<noteq> 429))) \<and>
     (undisturbed (select_events directory (map fst (files w))) w \<and> distinct (map fst (files w)) \<longrightarrow>
       (\<forall>n\<in>set (opened new). is_text (files w) n \<longrightarrow>
          (case reply env n of
             NotRequested \<Rightarrow> map_of (files w') n = map_of (files w) n \<and>
               Log ERROR UnexpectedError \<in> set new
           | Delivered \<Rightarrow> map_of (files w') n = None \<and>
               Log INFO (SentAndRemoved (path_join directory n)) \<in> set new
           | HTTPError code body_read \<Rightarrow>
               (case body_read of
                  Some x \<Rightarrow> map_of (files w') n = map_of (files w) n \<and> r = Inl x
                | None \<Rightarrow>
                    if code = 429 then map_of (files w') n = map_of (files w) n \<and>
                      Log WARN TooManyRequests \<in> set new
                    else if 400 \<le> code \<and> code \<le> 499 then map_of (files w') n = None \<and>
                      Log WARN NotAccepted \<in> set new
                    else map_of (files w') n = map_of (files w) n \<and>
                      Stderr (HttpFailure code) \<in> set new)
           | URLError \<Rightarrow> map_of (files w') n = map_of (files w) n \<and> Log ERROR SendFailed \<in> set new
           | OtherError \<Rightarrow> map_of (files w') n = map_of (files w) n \<and>
               Log ERROR UnexpectedError \<in> set new)) \<and>
       (\<forall>n\<in>set (select_events directory (map fst (files w))). map_of (files w') n = None \<longrightarrow>
          n \<in> set (posted new) \<and>
          (reply env n = Delivered \<or>
           (\<exists>code. reply env n = HTTPError code None \<and> 400 \<le> code \<and> code \<le> 499 \<and> code \<noteq> 429))))"
proof -
  let ?evs = "select_events directory (map fst (files w))"
  let ?url = "event_url endpoint port"
  from flush_trace[OF assms] obtain new where g:
    "trace w' = trace w @ new"
    "set (unlinked new) \<subseteq> {n \<in> set (posted new). deletes (reply env n)}"
    by blast
  have safe: "\<forall>n\<in>set (unlinked new). n \<in> set (posted new) \<and>
        (reply env n = Delivered \<or>
         (\<exists>code. reply env n = HTTPError code None \<and> 400 \<le> code \<and> code \<le> 499 \<and> code \<noteq> 429))"
    using g(2) by (auto simp: deletes_iff)
  have table: "(\<forall>n\<in>set (opened new). is_text (files w) n \<longrightarrow>
          (case reply env n of
             NotRequested \<Rightarrow> map_of (files w') n = map_of (files w) n \<and>
               Log ERROR UnexpectedError \<in> set new
           | Delivered \<Rightarrow> map_of (files w') n = None \<and>
               Log INFO (SentAndRemoved (path_join directory n)) \<in> set new
           | HTTPError code body_read \<Rightarrow>
               (case body_read of
                  Some x \<Rightarrow> map_of (files w') n = map_of (files w) n \<and> r = Inl x
                | None \<Rightarrow>
                    if code = 429 then map_of (files w') n = map_of (files w) n \<and>
                      Log WARN TooManyRequests \<in> set new
                    else if 400 \<le> code \<and> code \<le> 499 then map_of (files w') n = None \<and>
                      Log WARN NotAccepted \<in> set new
                    else map_of (files w') n = map_of (files w) n \<and>
                      Stderr (HttpFailure code) \<in> set new)
           | URLError \<Rightarrow> map_of (files w') n = map_of (files w) n \<and> Log ERROR SendFailed \<in> set new
           | OtherError \<Rightarrow> map_of (files w') n = map_of (files w) n \<and>
               Log ERROR UnexpectedError \<in> set new)) \<and>
       (\<forall>n\<in>set ?evs. map_of (files w') n = None \<longrightarrow>
          n \<in> set (posted new) \<and>
          (reply env n = Delivered \<or>
           (\<exists>code. reply env n = HTTPError code None \<and> 400 \<le> code \<and> code \<le> 499 \<and> code \<noteq> 429)))"
    if u: "undisturbed ?evs w" and dn: "distinct (map fst (files w))"
  proof -
    from flush_undisturbed_run[OF u dn assms] obtain new' pre post where n:
      "trace w' = trace w @ new'"
      "set (opened new') \<subseteq> set ?evs"
      "\<forall>n\<in>set ?evs. map_of (files w') n = (if n \<in> set (unlinked new') then None else map_of (files w) n)"
      "\<forall>n\<in>set (opened new'). \<forall>f s. map_of (files w) n = Some f \<and> body f = Text s \<longrightarrow>
          set (turn_effects directory n ?url (universal_newlines s) (reply env n)) \<subseteq> set new'"
      "unlinked new' = filter (\<lambda>n. is_text (files w) n \<and> deletes (reply env n)) (opened new')"
      "\<forall>n\<in>set (opened new'). \<forall>y. is_text (files w) n \<and> raised (reply env n) = Some y \<longrightarrow> r = Inl y"
      by (elim exE conjE) (rule that)
    have eq: "new' = new" using n(1) g(1) by simp
    have present: "\<And>n. n \<in> set ?evs \<Longrightarrow> map_of (files w) n \<noteq> None"
      by (auto simp: select_events_def map_of_eq_None_iff)
    have row: "case reply env n of
             NotRequested \<Rightarrow> map_of (files w') n = map_of (files w) n \<and>
               Log ERROR UnexpectedError \<in> set new
           | Delivered \<Rightarrow> map_of (files w') n = None \<and>
               Log INFO (SentAndRemoved (path_join directory n)) \<in> set new
           | HTTPError code body_read \<Rightarrow>
               (case body_read of
                  Some x \<Rightarrow> map_of (files w') n = map_of (files w) n \<and> r = Inl x
                | None \<Rightarrow>
                    if code = 429 then map_of (files w') n = map_of (files w) n \<and>
                      Log WARN TooManyRequests \<in> set new
                    else if 400 \<le> code \<and> code \<le> 499 then map_of (files w') n = None \<and>
                      Log WARN NotAccepted \<in> set new
                    else map_of (files w') n = map_of (files w) n \<and>
                      Stderr (HttpFailure code) \<in> set new)
           | URLError \<Rightarrow> map_of (files w') n = map_of (files w) n \<and> Log ERROR SendFailed \<in> set new
           | OtherError \<Rightarrow> map_of (files w') n = map_of (files w) n \<and>
               Log ERROR UnexpectedError \<in> set new"
      if on: "n \<in> set (opened new)" and it: "is_text (files w) n" for n
    proof -
      from on n(2) have ln: "n \<in> set ?evs" unfolding eq by auto
      from it obtain f s where fs: "map_of (files w) n = Some f" "body f = Text s"
        by (auto simp: is_text_def split: option.splits) (metis contents.exhaust)
      from n(4) on fs have "set (turn_effects directory n ?url (universal_newlines s) (reply env n)) \<subseteq> set new"
        unfolding eq by blast
      with outcome_effects_in_turn have oe: "set (outcome_effects directory n (reply env n)) \<subseteq> set new"
        by blast
      have ul: "n \<in> set (unlinked new) \<longleftrightarrow> deletes (reply env n)"
        using n(5) on it unfolding eq by auto
      have fw: "map_of (files w') n = (if deletes (reply env n) then None else map_of (files w) n)"
        using n(3) ln ul unfolding eq by simp
      have ab: "\<And>y. raised (reply env n) = Some y \<Longrightarrow> r = Inl y"
        using n(6) on it unfolding eq by blast
      show ?thesis
      proof (cases "reply env n")
        case (HTTPError code body_read)
        show ?thesis
        proof (cases body_read)
          case None
          with HTTPError fw outcome_effects_row[OF oe] show ?thesis
            by (auto simp: deletes_def)
        next
          case (Some x)
          with HTTPError have "raised (reply env n) = Some x" by (simp add: raised_def)
          from ab[OF this] HTTPError Some fw show ?thesis by (simp add: deletes_def)
        qed
      next
        case NotRequested
        with fw outcome_effects_row[OF oe] show ?thesis by (simp add: deletes_def)
      next
        case Delivered
        with fw outcome_effects_row[OF oe] show ?thesis by (simp add: deletes_def)
      next
        case URLError
        with fw outcome_effects_row[OF oe] show ?thesis by (simp add: deletes_def)
      next
        case OtherError
        with fw outcome_effects_row[OF oe] show ?thesis by (simp add: deletes_def)
      qed
    qed
    have gone: "n \<in> set (posted new) \<and>
          (reply env n = Delivered \<or>
           (\<exists>code. reply env n = HTTPError code None \<and> 400 \<le> code \<and> code \<le> 499 \<and> code \<noteq> 429))"
      if ln: "n \<in> set ?evs" and z: "map_of (files w') n = None" for n
    proof -
      from n(3) ln z present[OF ln] have "n \<in> set (unlinked new)"
        unfolding eq by (auto split: if_splits)
      with safe show ?thesis by blast
    qed
    from row gone show ?thesis by blast
  qed
  from g(1) safe table show ?thesis by blast
qed

theorem flush_outcome_table_witness:
  "flush demo_env ''https://api.ilert.com'' ''/tmp/ilert-icinga'' 443 busy_world = (Inr (), busy_after) \<and>
   undisturbed (select_events ''/tmp/ilert-icinga'' (map fst (files busy_world))) busy_world \<and>
   distinct (map fst (files busy_world)) \<and>
   racers busy_world \<noteq> [] \<and>
   opened (trace busy_after) = [''a.ilert'', ''b.ilert'', ''c.ilert'', ''d.ilert''] \<and>
   (\<forall>n\<in>set (opened (trace busy_after)). is_text (files busy_world) n) \<and>
   unlinked (trace busy_after) = [''a.ilert'', ''c.ilert''] \<and>
   (\<exists>new. trace busy_after = trace busy_world @ new \<and>
     (\<forall>n\<in>set (unlinked new). n \<in> set (posted new) \<and>
        (reply demo_env n = Delivered \<or>
         (\<exists>code. reply demo_env n = HTTPError code None \<and> 400 \<le> code \<and> code \<le> 499 \<and> code \<noteq> 429))) \<and>
     (\<forall>n\<in>set (opened new). is_text (files busy_world) n \<longrightarrow>
        (case reply demo_env n of
           NotRequested \<Rightarrow> map_of (files busy_after) n = map_of (files busy_world) n \<and>
             Log ERROR UnexpectedError \<in> set new
         | Delivered \<Rightarrow> map_of (files busy_after) n = None \<and>
             Log INFO (SentAndRemoved (path_join ''/tmp/ilert-icinga'' n)) \<in> set new
         | HTTPError code body_read \<Rightarrow>
             (case body_read of
                Some x \<Rightarrow> map_of (files busy_after) n = map_of (files busy_world) n \<and> Inr () = Inl x
              | None \<Rightarrow>
                  if code = 429 then map_of (files busy_after) n = map_of (files busy_world) n \<and>
                    Log WARN TooManyRequests \<in> set new
                  else if 400 \<le> code \<and> code \<le> 499 then map_of (files busy_after) n = None \<and>
                    Log WARN NotAccepted \<in> set new
                  else map_of (files busy_after) n = map_of (files busy_world) n \<and>
                    Stderr (HttpFailure code) \<in> set new)
         | URLError \<Rightarrow> map_of (files busy_after) n = map_of (files busy_world) n \<and>
             Log ERROR SendFailed \<in> set new
         | OtherError \<Rightarrow> map_of (files busy_after) n = map_of (files busy_world) n \<and>
             Log ERROR UnexpectedError \<in> set new)) \<and>
     (\<forall>n\<in>set (select_events ''/tmp/ilert-icinga'' (map fst (files busy_world))).
        map_of (files busy_after) n = None \<longrightarrow>
        n \<in> set (posted new) \<and>
        (reply demo_env n = Delivered \<or>
         (\<exists>code. reply demo_env n = HTTPError code None \<and> 400 \<le> code \<and> code \<le> 499 \<and> code \<noteq> 429))))"
proof -
  have h1: "flush demo_env ''https://api.ilert.com'' ''/tmp/ilert-icinga'' 443 busy_world = (Inr (), busy_after)"
    by code_simp
  have h2: "undisturbed (select_events ''/tmp/ilert-icinga'' (map fst (files busy_world))) busy_world"
    by code_simp
  have h3: "distinct (map fst (files busy_world))" by (simp add: busy_world_def demo_files_def)
  have h4: "racers busy_world \<noteq> []" by (simp add: busy_world_def)
  have h5: "opened (trace busy_after) = [''a.ilert'', ''b.ilert'', ''c.ilert'', ''d.ilert'']"
    "unlinked (trace busy_after) = [''a.ilert'', ''c.ilert'']"
    by code_simp+
  have h6: "\<forall>n\<in>set (opened (trace busy_after)). is_text (files busy_world) n"
    by code_simp
  from flush_outcome_table[OF h1] h2 h3 have
    "\<exists>new. trace busy_after = trace busy_world @ new \<and>
     (\<forall>n\<in>set (unlinked new). n \<in> set (posted new) \<and>
        (reply demo_env n = Delivered \<or>
         (\<exists>code. reply demo_env n = HTTPError code None \<and> 400 \<le> code \<and> code \<le> 499 \<and> code \<noteq> 429))) \<and>
     (\<forall>n\<in>set (opened new). is_text (files busy_world) n \<longrightarrow>
        (case reply demo_env n of
           NotRequested \<Rightarrow> map_of (files busy_after) n = map_of (files busy_world) n \<and>
             Log ERROR UnexpectedError \<in> set new
         | Delivered \<Rightarrow> map_of (files busy_after) n = None \<and>
             Log INFO (SentAndRemoved (path_join ''/tmp/ilert-icinga'' n)) \<in> set new
         | HTTPError code body_read \<Rightarrow>
             (case body_read of
                Some x \<Rightarrow> map_of (files busy_after) n = map_of (files busy_world) n \<and> Inr () = Inl x
              | None \<Rightarrow>
                  if code = 429 then map_of (files busy_after) n = map_of (files busy_world) n \<and>
                    Log WARN TooManyRequests \<in> set new
                  else if 400 \<le> code \<and> code \<le> 499 then map_of (files busy_after) n = None \<and>
                    Log WARN NotAccepted \<in> set new
                  else map_of (files busy_after) n = map_of (files busy_world) n \<and>
                    Stderr (HttpFailure code) \<in> set new)
         | URLError \<Rightarrow> map_of (files busy_after) n = map_of (files busy_world) n \<and>
             Log ERROR SendFailed \<in> set new
         | OtherError \<Rightarrow> map_of (files busy_after) n = map_of (files busy_world) n \<and>
             Log ERROR UnexpectedError \<in> set new)) \<and>
     (\<forall>n\<in>set (select_events ''/tmp/ilert-icinga'' (map fst (files busy_world))).
        map_of (files busy_after) n = None \<longrightarrow>
        n \<in> set (posted new) \<and>
        (reply demo_env n = Delivered \<or>
         (\<exists>code. reply demo_env n = HTTPError code None \<and> 400 \<le> code \<and> code \<le> 499 \<and> code \<noteq> 429)))"
    by simp
  with h1 h2 h3 h4 h5 h6 show ?thesis by (intro conjI)
qed

lemma sorted_key_prefix_filter:
  assumes "sorted (map m (pre @ post))"
  shows "sorted (map m (filter P pre))"
proof -
  from assms have "sorted_wrt (\<lambda>a b. m a \<le> m b) (pre @ post)" by (simp only: sorted_map)
  then have "sorted_wrt (\<lambda>a b. m a \<le> m b) pre" by (simp add: sorted_wrt_append)
  then have "sorted_wrt (\<lambda>a b. m a \<le> m b) (filter P pre)" by (rule sorted_wrt_filter)
  then show ?thesis by (simp only: sorted_map)
qed

lemma strict_sorted_key_prefix_filter:
  assumes "sorted_wrt (<) (map m (pre @ post))"
  shows "sorted_wrt (<) (map m (filter P pre))"
proof -
  from assms have "sorted_wrt (\<lambda>a b. m a < m b) (pre @ post)" by (simp only: sorted_wrt_map)
  then have "sorted_wrt (\<lambda>a b. m a < m b) pre" by (simp add: sorted_wrt_append)
  then have "sorted_wrt (\<lambda>a b. m a < m b) (filter P pre)" by (rule sorted_wrt_filter)
  then show ?thesis by (simp only: sorted_wrt_map)
qed

lemma distinct_map_sort_key:
  "distinct (map m (sort_key f xs)) = distinct (map m xs)"
  by (simp add: distinct_map)

text \<open>
  A flush during which the listed event files are left alone, all hold text, and every
  request is made and handled to its end: it returns, and has posted every one of them,
  in the order of the loop.
\<close>

lemma flush_undisturbed_all_sent:
  assumes "undisturbed (select_events directory (map fst (files w))) w"
    and "distinct (map fst (files w))"
    and "\<forall>n\<in>set (select_events directory (map fst (files w))).
           is_text (files w) n \<and> requested (reply env n) \<and> raised (reply env n) = None"
    and "flush env endpoint directory port w = (r, w')" and "trace w' = trace w @ new"
  shows "r = Inr () \<and>
     posted new = sort_key (mtime_of (files w)) (select_events directory (map fst (files w)))"
proof -
  let ?es = "sort_key (mtime_of (files w)) (select_events directory (map fst (files w)))"
  let ?P = "\<lambda>n. is_text (files w) n \<and> requested (reply env n)"
  from flush_undisturbed_run[OF assms(1,2,4)] obtain new' pre post where n:
    "trace w' = trace w @ new'" "?es = pre @ post"
    "posted new' = filter ?P pre"
    "r = Inr () \<longrightarrow> post = [] \<and> opened new' = ?es"
    "\<forall>x. r = Inl x \<longrightarrow>
        x = UnicodeDecodeError \<and>
        (\<exists>g rest. post = g # rest \<and> \<not> is_text (files w) g \<and> opened new' = pre @ [g]) \<or>
        (\<exists>pre0 g. pre = pre0 @ [g] \<and> is_text (files w) g \<and> raised (reply env g) = Some x \<and>
            opened new' = pre)"
    by (elim exE conjE) (rule that)
  have eq: "new' = new" using n(1) assms(5) by simp
  have all: "\<forall>n\<in>set ?es. is_text (files w) n \<and> requested (reply env n) \<and> raised (reply env n) = None"
    using assms(3) by simp
  have r: "r = Inr ()"
  proof (cases r)
    case (Inl x)
    with n(5) consider
        (dec) g rest where "post = g # rest" "\<not> is_text (files w) g"
      | (rd) pre0 g where "pre = pre0 @ [g]" "raised (reply env g) = Some x"
      by blast
    then show ?thesis
    proof cases
      case dec
      have "set ?es = set (pre @ g # rest)" using n(2) dec(1) by (simp only:)
      then have "g \<in> set ?es" by simp
      with dec(2) all show ?thesis by blast
    next
      case rd
      have "set ?es = set ((pre0 @ [g]) @ post)" using n(2) rd(1) by (simp only:)
      then have "g \<in> set ?es" by simp
      with rd(2) all show ?thesis by auto
    qed
  next
    case (Inr u)
    then show ?thesis by simp
  qed
  with n(4) have "post = []" by simp
  with n(2) have pe: "pre = ?es" by simp
  have "filter ?P ?es = ?es" using all by (intro filter_True) simp
  with n(3) pe have "posted new' = ?es" by simp
  with r eq show ?thesis by simp
qed

text \<open>
  C4. A flush during which other processes leave the listed event files alone (they may
  add, change and remove other entries). The files it opens are entries whose names end
  with \<^verbatim>\<open>.ilert\<close>, and when it returns they are exactly those entries, in ascending
  order of modification time. The files it posts are the readable files of an initial
  segment of that sorted listing for which the request could be built, in the order of
  the listing: so they are posted in ascending order of modification time, and in
  strictly ascending order when the modification times of the event files are distinct.
  When every event file holds text, every request can be built and no read of an error
  response fails, flush returns and posts every one of them, oldest first.
\<close>

theorem flush_sends_oldest_first:
  assumes "undisturbed (select_events directory (map fst (files w))) w"
    and "distinct (map fst (files w))"
    and "flush env endpoint directory port w = (r, w')"
  shows "\<exists>new. trace w' = trace w @ new \<and>
     set (opened new) \<subseteq> {n \<in> fst ` set (files w). endswith n ''.ilert''} \<and>
     (r = Inr () \<longrightarrow>
        opened new = sort_key (mtime_of (files w)) (filter (\<lambda>n. endswith n ''.ilert'') (map fst (files w)))) \<and>
     (\<exists>pre post.
        sort_key (mtime_of (files w)) (filter (\<lambda>n. endswith n ''.ilert'') (map fst (files w))) = pre @ post \<and>
        posted new = filter (\<lambda>n. is_text (files w) n \<and> requested (reply env n)) pre) \<and>
     sorted (map (mtime_of (files w)) (posted new)) \<and>
     (distinct (map (mtime_of (files w)) (filter (\<lambda>n. endswith n ''.ilert'') (map fst (files w)))) \<longrightarrow>
        sorted_wrt (<) (map (mtime_of (files w)) (posted new))) \<and>
     ((\<forall>n\<in>set (filter (\<lambda>n. endswith n ''.ilert'') (map fst (files w))).
          is_text (files w) n \<and> requested (reply env n) \<and> raised (reply env n) = None) \<longrightarrow>
        r = Inr () \<and>
        posted new = sort_key (mtime_of (files w)) (filter (\<lambda>n. endswith n ''.ilert'') (map fst (files w))))"
proof -
  let ?m = "mtime_of (files w)"
  let ?evs = "filter (\<lambda>n. endswith n ''.ilert'') (map fst (files w))"
  let ?es = "sort_key ?m ?evs"
  let ?P = "\<lambda>n. is_text (files w) n \<and> requested (reply env n)"
  have sel: "select_events directory (map fst (files w)) = ?evs" by (rule select_events_eq)
  from flush_undisturbed_run[OF assms] obtain new pre post where n0:
    "trace w' = trace w @ new"
    "sort_key ?m (select_events directory (map fst (files w))) = pre @ post"
    "posted new = filter ?P pre"
    "r = Inr () \<longrightarrow> post = [] \<and>
        opened new = sort_key ?m (select_events directory (map fst (files w)))"
    "set (opened new) \<subseteq> set (select_events directory (map fst (files w)))"
    by (elim exE conjE) (rule that)
  have n2: "?es = pre @ post" using n0(2) by (simp only: sel)
  have n4: "r = Inr () \<longrightarrow> opened new = ?es" using n0(4) by (simp only: sel) simp
  note n3 = n0(3)
  have a: "set (opened new) \<subseteq> {n \<in> fst ` set (files w). endswith n ''.ilert''}"
    using n0(5) unfolding sel by auto
  have seg: "\<exists>pre post. ?es = pre @ post \<and> posted new = filter ?P pre"
    using n2 n3 by blast
  have "sorted (map ?m (pre @ post))" using n2 sorted_sort_key[of ?m ?evs] by (simp only:)
  then have b: "sorted (map ?m (posted new))"
    unfolding n3 by (rule sorted_key_prefix_filter)
  have c: "sorted_wrt (<) (map ?m (posted new))" if dm: "distinct (map ?m ?evs)"
  proof -
    have "distinct (map ?m ?es)" using dm by (simp only: distinct_map_sort_key)
    moreover have "sorted (map ?m ?es)" by (rule sorted_sort_key)
    ultimately have "sorted_wrt (<) (map ?m ?es)" by (simp only: strict_sorted_iff)
    then have "sorted_wrt (<) (map ?m (pre @ post))" using n2 by (simp only:)
    then show ?thesis unfolding n3 by (rule strict_sorted_key_prefix_filter)
  qed
  have e: "r = Inr () \<and> posted new = ?es"
    if at: "\<forall>n\<in>set ?evs. is_text (files w) n \<and> requested (reply env n) \<and> raised (reply env n) = None"
  proof -
    have at': "\<forall>n\<in>set (select_events directory (map fst (files w))).
        is_text (files w) n \<and> requested (reply env n) \<and> raised (reply env n) = None"
      using at by (simp only: sel)
    from flush_undisturbed_all_sent[OF assms(1,2) at' assms(3) n0(1)] show ?thesis by (simp only: sel)
  qed
  from n0(1) a n4 seg b c e show ?thesis by (intro exI[of _ new] conjI impI) simp_all
qed

theorem flush_sends_oldest_first_witness:
  "undisturbed (select_events ''/tmp/ilert-icinga'' (map fst (files busy_world))) busy_world \<and>
   distinct (map fst (files busy_world)) \<and>
   flush demo_env ''https://api.ilert.com'' ''/tmp/ilert-icinga'' 443 busy_world = (Inr (), busy_after) \<and>
   posted (trace busy_after) = [''a.ilert'', ''b.ilert'', ''c.ilert'', ''d.ilert''] \<and>
   map (mtime_of (files busy_world)) (posted (trace busy_after)) = [10, 20, 30, 40] \<and>
   (\<exists>new. trace busy_after = trace busy_world @ new \<and>
     set (opened new) \<subseteq> {n \<in> fst ` set (files busy_world). endswith n ''.ilert''} \<and>
     opened new = sort_key (mtime_of (files busy_world))
        (filter (\<lambda>n. endswith n ''.ilert'') (map fst (files busy_world))) \<and>
     sorted (map (mtime_of (files busy_world)) (posted new)) \<and>
     sorted_wrt (<) (map (mtime_of (files busy_world)) (posted new)) \<and>
     posted new = sort_key (mtime_of (files busy_world))
        (filter (\<lambda>n. endswith n ''.ilert'') (map fst (files busy_world))))"
proof -
  have h1: "undisturbed (select_events ''/tmp/ilert-icinga'' (map fst (files busy_world))) busy_world"
    by code_simp
  have h2: "distinct (map fst (files busy_world))" by (simp add: busy_world_def demo_files_def)
  have h3: "flush demo_env ''https://api.ilert.com'' ''/tmp/ilert-icinga'' 443 busy_world = (Inr (), busy_after)"
    by code_simp
  have h4: "posted (trace busy_after) = [''a.ilert'', ''b.ilert'', ''c.ilert'', ''d.ilert'']"
    "map (mtime_of (files busy_world)) (posted (trace busy_after)) = [10, 20, 30, 40]"
    by code_simp+
  have h5: "distinct (map (mtime_of (files busy_world))
      (filter (\<lambda>n. endswith n ''.ilert'') (map fst (files busy_world))))"
    by code_simp
  have h6: "\<forall>n\<in>set (filter (\<lambda>n. endswith n ''.ilert'') (map fst (files busy_world))).
      is_text (files busy_world) n \<and> requested (reply demo_env n) \<and> raised (reply demo_env n) = None"
    by code_simp
  from flush_sends_oldest_first[OF h1 h2 h3] h5 h6 have
    "\<exists>new. trace busy_after = trace busy_world @ new \<and>
     set (opened new) \<subseteq> {n \<in> fst ` set (files busy_world). endswith n ''.ilert''} \<and>
     opened new = sort_key (mtime_of (files busy_world))
        (filter (\<lambda>n. endswith n ''.ilert'') (map fst (files busy_world))) \<and>
     sorted (map (mtime_of (files busy_world)) (posted new)) \<and>
     sorted_wrt (<) (map (mtime_of (files busy_world)) (posted new)) \<and>
     posted new = sort_key (mtime_of (files busy_world))
        (filter (\<lambda>n. endswith n ''.ilert'') (map fst (files busy_world)))"
    by auto
  with h1 h2 h3 h4 show ?thesis by (intro conjI)
qed

lemma posted_iff: "n \<in> set (posted tr) \<longleftrightarrow> (\<exists>u b. Post n u b \<in> set tr)"
proof (induction tr)
  case Nil
  then show ?case by simp
next
  case (Cons x tr)
  then show ?case by (cases x) auto
qed

text \<open>
  C8. A first flush over \<open>w\<close> posts \<open>e\<close> and meets an outcome that does not delete; a
  later flush runs over \<open>v\<close>, in which \<open>e\<close> is as the first flush left it. During either
  flush other processes leave the listed event files alone (they may add, change and remove
  other entries); every event file of \<open>v\<close> holds text, and in the later flush every
  request can be built and no read of an error response fails. Then: every listed event
  file the first flush leaves is as it was before, modification time and contents; \<open>e\<close>
  is among them; the second flush posts \<open>e\<close> again, and every request that either flush
  makes for \<open>e\<close> carries the same body, the contents \<open>e\<close> had at the start as text mode
  reads them; and the second flush posts in ascending order of modification time, so that
  every event it posts that is newer than \<open>e\<close> is posted after \<open>e\<close>.
\<close>

theorem retained_event_resubmitted_unchanged:
  assumes "undisturbed (select_events directory (map fst (files w))) w"
    and "distinct (map fst (files w))"
    and "flush env endpoint directory port w = (r1, w1)" and "trace w1 = trace w @ new1"
    and "e \<in> set (posted new1)" and "\<not> deletes (reply env e)"
    and "undisturbed (select_events directory (map fst (files v))) v"
    and "distinct (map fst (files v))"
    and "map_of (files v) e = map_of (files w1) e"
    and "\<forall>n\<in>set (select_events directory (map fst (files v))).
           is_text (files v) n \<and> requested (reply env2 n) \<and> raised (reply env2 n) = None"
    and "flush env2 endpoint directory port v = (r2, w2)" and "trace w2 = trace v @ new2"
  shows "(\<forall>n\<in>set (select_events directory (map fst (files w))).
        map_of (files w1) n \<noteq> None \<longrightarrow> map_of (files w1) n = map_of (files w) n) \<and>
     (\<exists>f s. map_of (files w) e = Some f \<and> body f = Text s \<and> map_of (files w1) e = Some f \<and>
        Post e (event_url endpoint port) (universal_newlines s) \<in> set new1 \<and>
        Post e (event_url endpoint port) (universal_newlines s) \<in> set new2 \<and>
        (\<forall>u b. Post e u b \<in> set new1 \<union> set new2 \<longrightarrow> b = universal_newlines s)) \<and>
     sorted (map (mtime_of (files v)) (posted new2)) \<and>
     mtime_of (files v) e = mtime_of (files w) e \<and>
     (\<forall>a\<in>set (posted new2). mtime_of (files v) e < mtime_of (files v) a \<longrightarrow>
        (\<exists>xs ys. posted new2 = xs @ e # ys \<and> a \<in> set ys))"
proof -
  let ?url = "event_url endpoint port"
  \<comment> \<open>the first flush\<close>
  let ?evs1 = "select_events directory (map fst (files w))"
  from flush_undisturbed_run[OF assms(1,2,3)] obtain new pre post where n:
    "trace w1 = trace w @ new"
    "sort_key (mtime_of (files w)) ?evs1 = pre @ post"
    "posted new = filter (\<lambda>n. is_text (files w) n \<and> requested (reply env n)) pre"
    "\<forall>n\<in>set ?evs1. map_of (files w1) n = (if n \<in> set (unlinked new) then None else map_of (files w) n)"
    "\<forall>n u b. Post n u b \<in> set new \<longrightarrow>
        u = ?url \<and> (\<exists>f s. map_of (files w) n = Some f \<and> body f = Text s \<and> b = universal_newlines s)"
    "unlinked new = filter (\<lambda>n. is_text (files w) n \<and> deletes (reply env n)) (opened new)"
    by (elim exE conjE) (rule that)
  have eq1: "new = new1" using n(1) assms(4) by simp
  have frame: "\<forall>n\<in>set ?evs1. map_of (files w1) n \<noteq> None \<longrightarrow> map_of (files w1) n = map_of (files w) n"
    using n(4) by (auto split: if_splits)
  have listed: "set (posted new) \<subseteq> set ?evs1"
  proof -
    have "set (posted new) \<subseteq> set (pre @ post)" using n(3) by auto
    also have "\<dots> = set (sort_key (mtime_of (files w)) ?evs1)" by (simp only: n(2))
    finally show ?thesis by simp
  qed
  have le: "e \<in> set ?evs1" using listed assms(5) unfolding eq1 by auto
  from assms(5) obtain u b where pe: "Post e u b \<in> set new1" by (auto simp: posted_iff)
  with n(5) obtain f s where fs: "map_of (files w) e = Some f" "body f = Text s"
    and ub: "u = ?url" "b = universal_newlines s"
    unfolding eq1 by blast
  have p1: "Post e ?url (universal_newlines s) \<in> set new1" using pe ub by simp
  have "e \<notin> set (unlinked new)" using n(6) assms(6) by simp
  with n(4) le fs(1) have kept: "map_of (files w1) e = Some f" by simp
  have ev: "endswith e ''.ilert''" using le by (simp add: select_events_eq)
  have body1: "\<forall>u b. Post e u b \<in> set new1 \<longrightarrow> b = universal_newlines s"
    using n(5) fs unfolding eq1 by fastforce
  \<comment> \<open>the second flush\<close>
  let ?m = "mtime_of (files v)"
  let ?evs2 = "select_events directory (map fst (files v))"
  let ?es2 = "sort_key ?m ?evs2"
  have inv: "map_of (files v) e = Some f" using assms(9) kept by simp
  then have "e \<in> fst ` set (files v)" by (metis map_of_eq_None_iff option.distinct(1))
  with ev have sel: "e \<in> set ?es2" by (simp add: select_events_eq)
  from flush_undisturbed_all_sent[OF assms(7,8,10,11,12)] have r2: "r2 = Inr ()" and po: "posted new2 = ?es2"
    by simp_all
  from flush_undisturbed_run[OF assms(7,8,11)] obtain new' where m:
    "trace w2 = trace v @ new'"
    "\<forall>n u b. Post n u b \<in> set new' \<longrightarrow>
        u = ?url \<and> (\<exists>f s. map_of (files v) n = Some f \<and> body f = Text s \<and> b = universal_newlines s)"
    by (elim exE conjE) (rule that)
  have eq2: "new' = new2" using m(1) assms(12) by simp
  have body2: "\<forall>u b. Post e u b \<in> set new2 \<longrightarrow> u = ?url \<and> b = universal_newlines s"
    using m(2) inv fs(2) unfolding eq2 by fastforce
  have "e \<in> set (posted new2)" using sel po by simp
  then obtain u2 b2 where "Post e u2 b2 \<in> set new2" by (auto simp: posted_iff)
  with body2 have again: "Post e ?url (universal_newlines s) \<in> set new2" by auto
  have same: "\<forall>u b. Post e u b \<in> set new1 \<union> set new2 \<longrightarrow> b = universal_newlines s"
    using body1 body2 by auto
  have so: "sorted (map ?m (posted new2))" unfolding po by (rule sorted_sort_key)
  have mt: "?m e = mtime_of (files w) e" using inv fs(1) by (simp add: mtime_of_def)
  have ord: "\<exists>xs ys. posted new2 = xs @ e # ys \<and> a \<in> set ys"
    if a: "a \<in> set (posted new2)" and lt: "?m e < ?m a" for a
  proof -
    from sel po obtain xs ys where sp: "posted new2 = xs @ e # ys" by (metis split_list)
    have "a \<notin> set xs"
    proof
      assume "a \<in> set xs"
      with so sp have "?m a \<le> ?m e" by (auto simp: sorted_append)
      with lt show False by simp
    qed
    moreover have "a \<noteq> e" using lt by auto
    ultimately have "a \<in> set ys" using a sp by auto
    with sp show ?thesis by blast
  qed
  from frame fs kept p1 again same so mt ord show ?thesis by blast
qed

theorem retained_event_resubmitted_unchanged_witness:
  "flush demo_env ''https://api.ilert.com'' ''/tmp/ilert-icinga'' 443 busy_world = (Inr (), busy_after) \<and>
   undisturbed (select_events ''/tmp/ilert-icinga'' (map fst (files busy_world))) busy_world \<and>
   ''b.ilert'' \<in> set (posted (trace busy_after)) \<and> \<not> deletes (reply demo_env ''b.ilert'') \<and>
   files demo_later = files busy_after \<and>
   posted (trace (snd (flush accept_env ''https://api.ilert.com'' ''/tmp/ilert-icinga'' 443 demo_later)))
     = [''b.ilert'', ''d.ilert'', ''e.ilert''] \<and>
   map_of (files busy_after) ''b.ilert'' = Some \<lparr>mtime = 20, body = Text (''B'' @ [CHR 0x0D, CHR 0x0A])\<rparr> \<and>
   universal_newlines (''B'' @ [CHR 0x0D, CHR 0x0A]) = ''B'' @ [CHR 0x0A] \<and>
   (\<exists>f s. map_of (files busy_world) ''b.ilert'' = Some f \<and> body f = Text s \<and>
        map_of (files busy_after) ''b.ilert'' = Some f \<and>
        Post ''b.ilert'' (event_url ''https://api.ilert.com'' 443) (universal_newlines s)
          \<in> set (trace busy_after) \<and>
        Post ''b.ilert'' (event_url ''https://api.ilert.com'' 443) (universal_newlines s)
          \<in> set (trace (snd (flush accept_env ''https://api.ilert.com'' ''/tmp/ilert-icinga'' 443 demo_later))))"
proof -
  let ?f2 = "flush accept_env ''https://api.ilert.com'' ''/tmp/ilert-icinga'' 443 demo_later"
  have h1: "undisturbed (select_events ''/tmp/ilert-icinga'' (map fst (files busy_world))) busy_world"
    by code_simp
  have h2: "distinct (map fst (files busy_world))" by (simp add: busy_world_def demo_files_def)
  have h3: "flush demo_env ''https://api.ilert.com'' ''/tmp/ilert-icinga'' 443 busy_world = (Inr (), busy_after)"
    by code_simp
  have h4: "trace busy_after = trace busy_world @ trace busy_after" by (simp add: busy_world_def)
  have h5: "''b.ilert'' \<in> set (posted (trace busy_after))" by code_simp
  have h6: "\<not> deletes (reply demo_env ''b.ilert'')" by code_simp
  have h7: "undisturbed (select_events ''/tmp/ilert-icinga'' (map fst (files demo_later))) demo_later"
    by code_simp
  have h8: "distinct (map fst (files demo_later))" by code_simp
  have fl: "files demo_later = files busy_after" by (simp add: demo_later_def busy_after_def)
  have h9: "map_of (files demo_later) ''b.ilert'' = map_of (files busy_after) ''b.ilert''"
    by (simp only: fl)
  have h10: "\<forall>n\<in>set (select_events ''/tmp/ilert-icinga'' (map fst (files demo_later))).
      is_text (files demo_later) n \<and> requested (reply accept_env n) \<and> raised (reply accept_env n) = None"
    by code_simp
  have h11: "?f2 = (fst ?f2, snd ?f2)" by simp
  have h12: "trace (snd ?f2) = trace demo_later @ trace (snd ?f2)" by (simp add: demo_later_def)
  have c1: "posted (trace (snd ?f2)) = [''b.ilert'', ''d.ilert'', ''e.ilert'']" by code_simp
  have c2: "map_of (files busy_after) ''b.ilert''
      = Some \<lparr>mtime = 20, body = Text (''B'' @ [CHR 0x0D, CHR 0x0A])\<rparr>" by code_simp
  have c3: "universal_newlines (''B'' @ [CHR 0x0D, CHR 0x0A]) = ''B'' @ [CHR 0x0A]" by code_simp
  from retained_event_resubmitted_unchanged[OF h1 h2 h3 h4 h5 h6 h7 h8 h9 h10 h11 h12]
  have "\<exists>f s. map_of (files busy_world) ''b.ilert'' = Some f \<and> body f = Text s \<and>
        map_of (files busy_after) ''b.ilert'' = Some f \<and>
        Post ''b.ilert'' (event_url ''https://api.ilert.com'' 443) (universal_newlines s)
          \<in> set (trace busy_after) \<and>
        Post ''b.ilert'' (event_url ''https://api.ilert.com'' 443) (universal_newlines s)
          \<in> set (trace (snd ?f2))"
    by blast
  with h3 h1 h5 h6 fl c1 c2 c3 show ?thesis by (intro conjI)
qed

lemma create_xml_concat:
  "create_xml apikey payload =
     (xml_header @ ''<event><apiKey>'') @ apikey @ ''</apiKey><payload>'' @
     concat (map xml_entry payload) @ ''</payload></event>''"
proof -
  have "\<And>acc. foldl (\<lambda>xml_doc entry. xml_doc @ xml_entry entry) acc payload
          = acc @ concat (map xml_entry payload)"
    by (induction payload) simp_all
  then show ?thesis by (simp add: create_xml_def)
qed

lemma strip_prefix_append: "strip_prefix p (p @ s) = Some s"
  by (simp add: strip_prefix_def)

lemma replace_simps:
  "replace c r [] = []"
  "replace c r (x # xs) = (if x = c then r else [x]) @ replace c r xs"
  "replace c r (xs @ ys) = replace c r xs @ replace c r ys"
  by (simp_all add: replace_def)

lemma replace_not_in: "c \<notin> set r \<Longrightarrow> c \<notin> set (replace c r s)"
  by (induction s) (auto simp: replace_simps)

lemma replace_id: "c \<notin> set s \<Longrightarrow> replace c r s = s"
  by (induction s) (auto simp: replace_simps)

lemma escape_Nil: "escape [] = []"
  by (simp add: escape_def replace_simps)

lemma escape_Cons:
  "escape (x # xs) =
     (if x = CHR ''&'' then ''&amp;'' else if x = CHR ''>'' then ''&gt;''
      else if x = CHR ''<'' then ''&lt;'' else [x]) @ escape xs"
  by (simp add: escape_def replace_simps)

lemma lt_not_in_escape: "CHR ''<'' \<notin> set (escape v)"
  unfolding escape_def by (rule replace_not_in) simp

lemma unescape_reference:
  "unescape (''&amp;'' @ r) = map_option ((#) (CHR ''&'')) (unescape r)"
  "unescape (''&lt;'' @ r) = map_option ((#) (CHR ''<'')) (unescape r)"
  "unescape (''&gt;'' @ r) = map_option ((#) (CHR ''>'')) (unescape r)"
  "unescape (''&quot;'' @ r) = map_option ((#) (CHR 0x22)) (unescape r)"
  "unescape (''&#10;'' @ r) = map_option ((#) (CHR 0x0A)) (unescape r)"
  "unescape (''&#13;'' @ r) = map_option ((#) (CHR 0x0D)) (unescape r)"
  "unescape (''&#9;'' @ r) = map_option ((#) (CHR 0x09)) (unescape r)"
  by (simp_all add: references_def)

lemma unescape_plain:
  "c \<noteq> CHR ''&'' \<Longrightarrow> c \<noteq> CHR ''<'' \<Longrightarrow> unescape (c # r) = map_option ((#) c) (unescape r)"
  by simp

lemma unescape_escape: "unescape (escape v) = Some v"
proof (induction v)
  case Nil
  show ?case by (simp add: escape_Nil)
next
  case (Cons x v)
  consider "x = CHR ''&''" | "x = CHR ''>''" | "x = CHR ''<''"
    | "x \<noteq> CHR ''&''" "x \<noteq> CHR ''>''" "x \<noteq> CHR ''<''" by blast
  then show ?case
  proof cases
    case 1
    then have "escape (x # v) = ''&amp;'' @ escape v" by (simp add: escape_Cons)
    then show ?thesis using Cons 1 by (simp only: unescape_reference) simp
  next
    case 2
    then have "escape (x # v) = ''&gt;'' @ escape v" by (simp add: escape_Cons)
    then show ?thesis using Cons 2 by (simp only: unescape_reference) simp
  next
    case 3
    then have "escape (x # v) = ''&lt;'' @ escape v" by (simp add: escape_Cons)
    then show ?thesis using Cons 3 by (simp only: unescape_reference) simp
  next
    case 4
    then have "escape (x # v) = x # escape v" by (simp add: escape_Cons)
    then show ?thesis using Cons 4 by (simp only: unescape_plain) simp
  qed
qed

lemma unescape_unmarked:
  "CHR ''&'' \<notin> set s \<Longrightarrow> CHR ''<'' \<notin> set s \<Longrightarrow> unescape s = Some s"
  by (induction s) auto

lemma takeWhile_until:
  "c \<notin> set xs \<Longrightarrow> takeWhile (\<lambda>x. x \<noteq> c) (xs @ c # r) = xs \<and> dropWhile (\<lambda>x. x \<noteq> c) (xs @ c # r) = c # r"
  by (induction xs) auto

lemma read_chardata_escape:
  "read_chardata (escape v @ CHR ''<'' # r) = Some (v, CHR ''<'' # r)"
  using takeWhile_until[OF lt_not_in_escape, of v r]
  by (simp add: read_chardata_def unescape_escape)

lemma read_chardata_unmarked:
  "CHR ''&'' \<notin> set s \<Longrightarrow> CHR ''<'' \<notin> set s \<Longrightarrow>
     read_chardata (s @ CHR ''<'' # r) = Some (s, CHR ''<'' # r)"
  using takeWhile_until[of "CHR ''<''" s r]
  by (simp add: read_chardata_def unescape_unmarked)

lemma escape_attr_Nil: "escape_attr [] = []"
  by (simp add: escape_attr_def escape_Nil replace_simps)

lemma escape_attr_Cons:
  "escape_attr (x # xs) =
     (if x = CHR ''&'' then ''&amp;'' else if x = CHR ''>'' then ''&gt;''
      else if x = CHR ''<'' then ''&lt;'' else if x = CHR 0x0A then ''&#10;''
      else if x = CHR 0x0D then ''&#13;'' else if x = CHR 0x09 then ''&#9;'' else [x]) @ escape_attr xs"
  by (simp add: escape_attr_def escape_Cons replace_simps)

lemma unescape_escape_attr: "unescape (escape_attr k) = Some k"
proof (induction k)
  case Nil
  show ?case by (simp add: escape_attr_Nil)
next
  case (Cons x k)
  consider "x = CHR ''&''" | "x = CHR ''>''" | "x = CHR ''<''" | "x = CHR 0x0A" | "x = CHR 0x0D"
    | "x = CHR 0x09"
    | "x \<noteq> CHR ''&''" "x \<noteq> CHR ''>''" "x \<noteq> CHR ''<''" "x \<noteq> CHR 0x0A" "x \<noteq> CHR 0x0D" "x \<noteq> CHR 0x09"
    by blast
  then show ?case
  proof cases
    case 1
    then have "escape_attr (x # k) = ''&amp;'' @ escape_attr k" by (simp add: escape_attr_Cons)
    then show ?thesis using Cons 1 by (simp only: unescape_reference) simp
  next
    case 2
    then have "escape_attr (x # k) = ''&gt;'' @ escape_attr k" by (simp add: escape_attr_Cons)
    then show ?thesis using Cons 2 by (simp only: unescape_reference) simp
  next
    case 3
    then have "escape_attr (x # k) = ''&lt;'' @ escape_attr k" by (simp add: escape_attr_Cons)
    then show ?thesis using Cons 3 by (simp only: unescape_reference) simp
  next
    case 4
    then have "escape_attr (x # k) = ''&#10;'' @ escape_attr k" by (simp add: escape_attr_Cons)
    then show ?thesis using Cons 4 by (simp only: unescape_reference) simp
  next
    case 5
    then have "escape_attr (x # k) = ''&#13;'' @ escape_attr k" by (simp add: escape_attr_Cons)
    then show ?thesis using Cons 5 by (simp only: unescape_reference) simp
  next
    case 6
    then have "escape_attr (x # k) = ''&#9;'' @ escape_attr k" by (simp add: escape_attr_Cons)
    then show ?thesis using Cons 6 by (simp only: unescape_reference) simp
  next
    case 7
    then have "escape_attr (x # k) = x # escape_attr k" by (simp add: escape_attr_Cons)
    then show ?thesis using Cons 7 by (simp only: unescape_plain) simp
  qed
qed

lemma unescape_quot_escape_attr: "unescape (replace (CHR 0x22) ''&quot;'' (escape_attr k)) = Some k"
proof (induction k)
  case Nil
  show ?case by (simp add: escape_attr_Nil replace_simps)
next
  case (Cons x k)
  let ?q = "\<lambda>s. replace (CHR 0x22) ''&quot;'' s"
  consider "x = CHR ''&''" | "x = CHR ''>''" | "x = CHR ''<''" | "x = CHR 0x0A" | "x = CHR 0x0D"
    | "x = CHR 0x09" | "x = CHR 0x22"
    | "x \<noteq> CHR ''&''" "x \<noteq> CHR ''>''" "x \<noteq> CHR ''<''" "x \<noteq> CHR 0x0A" "x \<noteq> CHR 0x0D" "x \<noteq> CHR 0x09"
      "x \<noteq> CHR 0x22"
    by blast
  then show ?case
  proof cases
    case 1
    then have "?q (escape_attr (x # k)) = ''&amp;'' @ ?q (escape_attr k)"
      by (simp add: escape_attr_Cons replace_simps)
    then show ?thesis using Cons 1 by (simp only: unescape_reference) simp
  next
    case 2
    then have "?q (escape_attr (x # k)) = ''&gt;'' @ ?q (escape_attr k)"
      by (simp add: escape_attr_Cons replace_simps)
    then show ?thesis using Cons 2 by (simp only: unescape_reference) simp
  next
    case 3
    then have "?q (escape_attr (x # k)) = ''&lt;'' @ ?q (escape_attr k)"
      by (simp add: escape_attr_Cons replace_simps)
    then show ?thesis using Cons 3 by (simp only: unescape_reference) simp
  next
    case 4
    then have "?q (escape_attr (x # k)) = ''&#10;'' @ ?q (escape_attr k)"
      by (simp add: escape_attr_Cons replace_simps)
    then show ?thesis using Cons 4 by (simp only: unescape_reference) simp
  next
    case 5
    then have "?q (escape_attr (x # k)) = ''&#13;'' @ ?q (escape_attr k)"
      by (simp add: escape_attr_Cons replace_simps)
    then show ?thesis using Cons 5 by (simp only: unescape_reference) simp
  next
    case 6
    then have "?q (escape_attr (x # k)) = ''&#9;'' @ ?q (escape_attr k)"
      by (simp add: escape_attr_Cons replace_simps)
    then show ?thesis using Cons 6 by (simp only: unescape_reference) simp
  next
    case 7
    then have "?q (escape_attr (x # k)) = ''&quot;'' @ ?q (escape_attr k)"
      by (simp add: escape_attr_Cons replace_simps)
    then show ?thesis using Cons 7 by (simp only: unescape_reference) simp
  next
    case 8
    then have "?q (escape_attr (x # k)) = x # ?q (escape_attr k)"
      by (simp add: escape_attr_Cons replace_simps)
    then show ?thesis using Cons 8 by (simp only: unescape_plain) simp
  qed
qed

lemma read_attribute_quoted:
  assumes "q = CHR 0x22 \<or> q = CHR 0x27" and "q \<notin> set b" and "unescape b = Some k"
  shows "read_attribute (q # b @ q # r) = Some (k, r)"
  using assms takeWhile_until[of q b r]
  by (auto simp: read_attribute_def)

lemma read_attribute_quoteattr: "read_attribute (quoteattr k @ r) = Some (k, r)"
proof -
  let ?d = "escape_attr k"
  consider (plain) "CHR 0x22 \<notin> set ?d"
    | (single) "CHR 0x22 \<in> set ?d" "CHR 0x27 \<notin> set ?d"
    | (both) "CHR 0x22 \<in> set ?d" "CHR 0x27 \<in> set ?d"
    by blast
  then show ?thesis
  proof cases
    case plain
    then have "quoteattr k @ r = CHR 0x22 # ?d @ CHR 0x22 # r" by (simp add: quoteattr_def)
    moreover have "read_attribute (CHR 0x22 # ?d @ CHR 0x22 # r) = Some (k, r)"
      using plain by (intro read_attribute_quoted) (simp_all add: unescape_escape_attr)
    ultimately show ?thesis by (simp only:)
  next
    case single
    then have "quoteattr k @ r = CHR 0x27 # ?d @ CHR 0x27 # r" by (simp add: quoteattr_def)
    moreover have "read_attribute (CHR 0x27 # ?d @ CHR 0x27 # r) = Some (k, r)"
      using single by (intro read_attribute_quoted) (simp_all add: unescape_escape_attr)
    ultimately show ?thesis by (simp only:)
  next
    case both
    have nq: "CHR 0x22 \<notin> set (replace (CHR 0x22) ''&quot;'' ?d)"
      by (rule replace_not_in) simp
    from both have "quoteattr k @ r = CHR 0x22 # replace (CHR 0x22) ''&quot;'' ?d @ CHR 0x22 # r"
      by (simp add: quoteattr_def)
    moreover have "read_attribute (CHR 0x22 # replace (CHR 0x22) ''&quot;'' ?d @ CHR 0x22 # r) = Some (k, r)"
      using nq by (intro read_attribute_quoted) (simp_all add: unescape_quot_escape_attr)
    ultimately show ?thesis by (simp only:)
  qed
qed

lemma read_entry:
  "read_entries (Suc n) (xml_entry e @ rest) =
     (case read_entries n rest of None \<Rightarrow> None | Some (p, s) \<Rightarrow> Some (e # p, s))"
proof -
  have "xml_entry e @ rest = ''<entry key='' @ (quoteattr (fst e) @ (''>'' @ (escape (snd e) @ (''</entry>'' @ rest))))"
    by (simp add: xml_entry_def)
  then show ?thesis
    by (simp add: strip_prefix_def read_attribute_quoteattr read_chardata_escape split: option.splits)
qed

lemma read_entries_encoded:
  assumes "strip_prefix ''<entry key='' tail = None" and "length p < n"
  shows "read_entries n (concat (map xml_entry p) @ tail) = Some (p, tail)"
  using assms(2)
proof (induction p arbitrary: n)
  case Nil
  then obtain n' where "n = Suc n'" by (cases n) auto
  with assms(1) show ?case by simp
next
  case (Cons e p)
  then obtain n' where n': "n = Suc n'" "length p < n'" by (cases n) auto
  from Cons.IH[OF n'(2)] have "read_entries n' (concat (map xml_entry p) @ tail) = Some (p, tail)" .
  then show ?case unfolding n'(1) by (simp add: read_entry del: read_entries.simps)
qed

lemma length_entries: "length p \<le> length (concat (map xml_entry p))"
  by (induction p) (auto simp: xml_entry_def)

text \<open>
  X1. The round trip that the encoder does have (compare C7). Reading back a document
  gives the payload, every key and every value, in order; and it gives the API key when
  the API key has no ampersand and no \<^verbatim>\<open><\<close>.
\<close>

theorem decode_create_xml:
  assumes "CHR ''&'' \<notin> set apikey" and "CHR ''<'' \<notin> set apikey"
  shows "decode_xml (create_xml apikey payload) = Some (apikey, payload)"
proof -
  let ?tail = "''</payload></event>''"
  let ?entries = "concat (map xml_entry payload) @ ?tail"
  have a: "strip_prefix (xml_header @ ''<event><apiKey>'') (create_xml apikey payload)
      = Some (apikey @ ''</apiKey><payload>'' @ ?entries)"
    by (simp only: create_xml_concat strip_prefix_append)
  have b: "read_chardata (apikey @ ''</apiKey><payload>'' @ ?entries)
      = Some (apikey, ''</apiKey><payload>'' @ ?entries)"
    using read_chardata_unmarked[OF assms] by simp
  have c: "strip_prefix ''</apiKey><payload>'' (''</apiKey><payload>'' @ ?entries) = Some ?entries"
    by (rule strip_prefix_append)
  have t: "strip_prefix ''<entry key='' ?tail = None" by (simp add: strip_prefix_def)
  have "length payload < Suc (length ?entries)"
    using length_entries[of payload] by simp
  from read_entries_encoded[OF t this]
  have d: "read_entries (Suc (length ?entries)) ?entries = Some (payload, ?tail)" .
  show ?thesis
    by (simp only: decode_xml_def a b c d option.case prod.case) simp
qed

theorem decode_create_xml_witness:
  "CHR ''&'' \<notin> set ''abc123'' \<and> CHR ''<'' \<notin> set ''abc123'' \<and>
   decode_xml (create_xml ''abc123''
     [(''HOSTNAME'', ''web<1>''), ([CHR ''a'', CHR 0x22, CHR ''b'', CHR 0x27, CHR 0x0A], ''load > 5 & rising'')])
   = Some (''abc123'',
     [(''HOSTNAME'', ''web<1>''), ([CHR ''a'', CHR 0x22, CHR ''b'', CHR 0x27, CHR 0x0A], ''load > 5 & rising'')])"
proof -
  have h: "CHR ''&'' \<notin> set ''abc123''" "CHR ''<'' \<notin> set ''abc123''" by simp_all
  from decode_create_xml[OF h] h show ?thesis by (intro conjI)
qed

text \<open>
  C7 fails on the code for the API key. \<^verbatim>\<open>create_xml\<close> escapes every payload key and
  value but puts the API key between its tags as it is. With the API key \<^verbatim>\<open>A&B\<close> the
  document holds a bare ampersand and cannot be read back; the value \<^verbatim>\<open>v&w\<close> of
  the same document is written as \<^verbatim>\<open>v&amp;w\<close>. With the API key \<^verbatim>\<open>&lt;\<close> the
  document reads back with the API key \<^verbatim>\<open><\<close>.
\<close>

theorem create_xml_apikey_not_escaped:
  "create_xml ''A&B'' [(''k'', ''v&w'')] =
     xml_header @ ''<event><apiKey>A&B</apiKey><payload><entry key='' @ [CHR 0x22] @ ''k'' @ [CHR 0x22] @
       ''>v&amp;w</entry></payload></event>'' \<and>
   decode_xml (create_xml ''A&B'' [(''k'', ''v&w'')]) = None \<and>
   decode_xml (create_xml ''&lt;'' [(''k'', ''v&w'')]) = Some (''<'', [(''k'', ''v&w'')])"
  by code_simp

end
